theory Spec2Isabelle
  imports Main "HOL-Library.Char_ord" "HOL-Library.List_Lexorder" "HOL-Library.Product_Lexorder"
    "HOL-Library.Multiset" "HOL-Library.Sublist"
begin

section \<open>Python string primitives used by script.py\<close>

text \<open>
  A Python \<open>str\<close> is modelled as a \<open>string\<close> (a list of \<open>char\<close>); a \<open>char\<close> stands for a
  code point below 256. The functions of this section are the \<open>str\<close> methods and the
  \<open>html.escape\<close> function that script.py calls, restricted to that range.
\<close>

datatype error =
  ValueError | FileNotFoundError | IsADirectoryError | NotADirectoryError | FileExistsError
  | SystemExit nat

text \<open>\<open>s.startswith(p)\<close>\<close>

definition startswith :: "string \<Rightarrow> string \<Rightarrow> bool" where
  "startswith s p = (take (length p) s = p)"

text \<open>\<open>s.replace(c, r)\<close> for a one-character \<open>c\<close>, and \<open>html.escape(s)\<close> (with its default
  \<open>quote=True\<close>): five replacements in sequence, the ampersand first.\<close>

definition replace_char :: "char \<Rightarrow> string \<Rightarrow> string \<Rightarrow> string" where
  "replace_char c r s = concat (map (\<lambda>x. if x = c then r else [x]) s)"

definition escape :: "string \<Rightarrow> string" where
  "escape s =
     replace_char (CHR 0x27) ''&#x27;''
       (replace_char (CHR 0x22) ''&quot;''
         (replace_char CHR ''>'' ''&gt;''
           (replace_char CHR ''<'' ''&lt;''
             (replace_char CHR ''&'' ''&amp;'' s))))"

text \<open>\<open>c.isspace()\<close> and \<open>c.isdigit()\<close> for code points below 256.\<close>

definition isspace :: "char \<Rightarrow> bool" where
  "isspace c = (c \<in> set [CHR 0x09, CHR 0x0A, CHR 0x0B, CHR 0x0C, CHR 0x0D,
                          CHR 0x1C, CHR 0x1D, CHR 0x1E, CHR 0x1F, CHR 0x20, CHR 0x85, CHR 0xA0])"

definition isdigit :: "char \<Rightarrow> bool" where
  "isdigit c = (c \<in> set (''0123456789'' @ [CHR 0xB2, CHR 0xB3, CHR 0xB9]))"

text \<open>\<open>s.lstrip()\<close>, \<open>s.rstrip()\<close>, \<open>s.strip()\<close> and their variants with a set of characters.\<close>

definition lstrip :: "string \<Rightarrow> string" where
  "lstrip s = dropWhile isspace s"

definition rstrip :: "string \<Rightarrow> string" where
  "rstrip s = rev (dropWhile isspace (rev s))"

definition strip :: "string \<Rightarrow> string" where
  "strip s = lstrip (rstrip s)"

definition lstrip_chars :: "string \<Rightarrow> string \<Rightarrow> string" where
  "lstrip_chars s cs = dropWhile (\<lambda>c. c \<in> set cs) s"

definition rstrip_chars :: "string \<Rightarrow> string \<Rightarrow> string" where
  "rstrip_chars s cs = rev (dropWhile (\<lambda>c. c \<in> set cs) (rev s))"

text \<open>\<open>s[a:b]\<close> for \<open>0 \<le> a\<close> and \<open>0 \<le> b\<close>.\<close>

definition slice :: "string \<Rightarrow> nat \<Rightarrow> nat \<Rightarrow> string" where
  "slice s a b = take (b - a) (drop a s)"

text \<open>\<open>sep.join(xs)\<close>\<close>

fun str_join :: "string \<Rightarrow> string list \<Rightarrow> string" where
  "str_join sep [] = []"
| "str_join sep [x] = x"
| "str_join sep (x # y # ys) = x @ sep @ str_join sep (y # ys)"

text \<open>\<open>s.splitlines()\<close>: a line ends at a line boundary (CR LF counts as one); no empty
  last line is produced after a final boundary.\<close>

definition is_linebreak :: "char \<Rightarrow> bool" where
  "is_linebreak c = (c \<in> set [CHR 0x0A, CHR 0x0B, CHR 0x0C, CHR 0x0D,
                               CHR 0x1C, CHR 0x1D, CHR 0x1E, CHR 0x85])"

fun splitlines_from :: "string \<Rightarrow> string \<Rightarrow> string list" where
  "splitlines_from cur [] = (if cur = [] then [] else [cur])"
| "splitlines_from cur [c] = (if is_linebreak c then [cur] else [cur @ [c]])"
| "splitlines_from cur (c # d # cs) =
     (if c = CHR 0x0D \<and> d = CHR 0x0A then cur # splitlines_from [] cs
      else if is_linebreak c then cur # splitlines_from [] (d # cs)
      else splitlines_from (cur @ [c]) (d # cs))"

definition splitlines :: "string \<Rightarrow> string list" where
  "splitlines s = splitlines_from [] s"

text \<open>\<open>s.split(sep)\<close>: the pieces between the non-overlapping occurrences of \<open>sep\<close>, found
  from the left; an empty separator raises \<open>ValueError\<close>.\<close>

function split_from :: "string \<Rightarrow> string \<Rightarrow> string \<Rightarrow> string list" where
  "split_from sep cur [] = [cur]"
| "split_from sep cur (c # cs) =
     (if sep \<noteq> [] \<and> startswith (c # cs) sep
      then cur # split_from sep [] (drop (length sep) (c # cs))
      else split_from sep (cur @ [c]) cs)"
  by pat_completeness auto
termination
  by (relation "measure (\<lambda>(sep, cur, s). length s)") auto

definition str_split :: "string \<Rightarrow> string \<Rightarrow> error + string list" where
  "str_split s sep = (if sep = [] then Inl ValueError else Inr (split_from sep [] s))"

text \<open>\<open>s.count(sep)\<close>: the number of non-overlapping occurrences of \<open>sep\<close>, found from the
  left (\<open>len(s) + 1\<close> for the empty separator).\<close>

function count_from :: "string \<Rightarrow> string \<Rightarrow> nat" where
  "count_from sep [] = 0"
| "count_from sep (c # cs) =
     (if sep \<noteq> [] \<and> startswith (c # cs) sep
      then Suc (count_from sep (drop (length sep) (c # cs)))
      else count_from sep cs)"
  by pat_completeness auto
termination
  by (relation "measure (\<lambda>(sep, s). length s)") auto

definition str_count :: "string \<Rightarrow> string \<Rightarrow> nat" where
  "str_count s sep = (if sep = [] then Suc (length s) else count_from sep s)"

text \<open>\<open>s.find(c, start)\<close> for a one-character \<open>c\<close>; \<open>None\<close> is Python's \<open>-1\<close>.\<close>

definition str_find :: "string \<Rightarrow> char \<Rightarrow> nat \<Rightarrow> nat option" where
  "str_find s c start =
     (if c \<in> set (drop start s)
      then Some (start + length (takeWhile (\<lambda>x. x \<noteq> c) (drop start s)))
      else None)"

section \<open>Inline renderer\<close>

text \<open>The loop of \<open>_replace_delimited\<close>: \<open>out\<close> and \<open>toggle\<close> after the remaining parts.\<close>

fun wrap_loop :: "string list \<Rightarrow> string \<Rightarrow> string \<Rightarrow> bool \<Rightarrow> string list \<Rightarrow> string list \<times> bool" where
  "wrap_loop [] open_tag close_tag toggle out = (out, toggle)"
| "wrap_loop (part # parts) open_tag close_tag toggle out =
     wrap_loop parts open_tag close_tag (\<not> toggle)
       (if toggle then out @ [open_tag @ part @ close_tag] else out @ [part])"

definition replace_delimited :: "string \<Rightarrow> string \<Rightarrow> string \<Rightarrow> string \<Rightarrow> error + string" where
  "replace_delimited s delim open_tag close_tag =
     (case str_split s delim of
        Inl e \<Rightarrow> Inl e
      | Inr parts \<Rightarrow>
          if length parts < 3 then Inr s
          else (case wrap_loop parts open_tag close_tag False [] of
                  (out, toggle) \<Rightarrow> if toggle then Inr s else Inr (concat out)))"

text \<open>\<open>_replace_links\<close>: the scan for \<open>[text](url)\<close>.\<close>

definition anchor :: "string \<Rightarrow> string \<Rightarrow> string" where
  \<open>anchor url text = ''<a href="'' @ url @ ''">'' @ text @ ''</a>''\<close>

lemma takeWhile_neq_shorter: "c \<in> set r \<Longrightarrow> length (takeWhile (\<lambda>x. x \<noteq> c) r) < length r"
  by (induction r) auto

lemma str_find_bounds: "str_find s c start = Some k \<Longrightarrow> start \<le> k \<and> k < length s"
proof -
  assume h: "str_find s c start = Some k"
  let ?r = "drop start s"
  from h have mem: "c \<in> set ?r" and k: "k = start + length (takeWhile (\<lambda>x. x \<noteq> c) ?r)"
    by (auto simp: str_find_def split: if_splits)
  from takeWhile_neq_shorter[OF mem] k show ?thesis by auto
qed

function replace_links_loop :: "string \<Rightarrow> nat \<Rightarrow> string list \<Rightarrow> string list" where
  "replace_links_loop s i out =
     (if i < length s then
        (if s ! i = CHR ''['' then
           (case str_find s CHR '']'' (i + 1) of
              None \<Rightarrow> replace_links_loop s (i + 1) (out @ [[s ! i]])
            | Some j \<Rightarrow>
                if j + 1 < length s \<and> s ! (j + 1) = CHR ''('' then
                  (case str_find s CHR '')'' (j + 2) of
                     None \<Rightarrow> replace_links_loop s (i + 1) (out @ [[s ! i]])
                   | Some k \<Rightarrow>
                       replace_links_loop s (k + 1)
                         (out @ [anchor (slice s (j + 2) k) (slice s (i + 1) j)]))
                else replace_links_loop s (i + 1) (out @ [[s ! i]]))
         else replace_links_loop s (i + 1) (out @ [[s ! i]]))
      else out)"
  by pat_completeness auto

termination
proof (relation "measure (\<lambda>(s, i, out). length s - i)", goal_cases)
  case 1
  show ?case by simp
next
  case (2 s i out)
  then show ?case by simp
next
  case (3 s i out j)
  then show ?case by simp
next
  case (4 s i out j k)
  from str_find_bounds[OF 4(3)] str_find_bounds[OF 4(5)] 4(1) show ?case by auto
next
  case (5 s i out j)
  then show ?case by simp
next
  case (6 s i out)
  then show ?case by simp
qed

declare replace_links_loop.simps [simp del]

definition replace_links :: "string \<Rightarrow> string" where
  "replace_links s = concat (replace_links_loop s 0 [])"

text \<open>\<open>_render_inline\<close>: escape, then code spans, strong, emphasis, links.\<close>

definition render_inline :: "string \<Rightarrow> error + string" where
  "render_inline text =
     (case replace_delimited (escape text) ''`'' ''<code>'' ''</code>'' of
        Inl e \<Rightarrow> Inl e
      | Inr t1 \<Rightarrow>
          (case replace_delimited t1 ''**'' ''<strong>'' ''</strong>'' of
             Inl e \<Rightarrow> Inl e
           | Inr t2 \<Rightarrow>
               (case replace_delimited t2 ''*'' ''<em>'' ''</em>'' of
                  Inl e \<Rightarrow> Inl e
                | Inr t3 \<Rightarrow> Inr (replace_links t3))))"

section \<open>Block renderer\<close>

text \<open>\<open>str(n)\<close> for a natural number, as the f-string \<open>f"<h{level}>"\<close> formats it.\<close>

definition digit_char :: "nat \<Rightarrow> char" where
  "digit_char d = ''0123456789'' ! d"

fun str_nat :: "nat \<Rightarrow> string" where
  "str_nat n = (if n < 10 then [digit_char n] else str_nat (n div 10) @ [digit_char (n mod 10)])"

declare str_nat.simps [simp del]

text \<open>\<open>_is_fenced_start\<close>: the language after an opening fence, \<open>None\<close> for another line.\<close>

definition is_fenced_start :: "string \<Rightarrow> string option" where
  "is_fenced_start line0 =
     (let line = rstrip_chars line0 [CHR 0x0A] in
      if startswith line ''```'' then Some (strip (drop 3 line)) else None)"

text \<open>\<open>_starts_with_numbered_item\<close>: the inner loop moves \<open>j\<close> past the digits.\<close>

function scan_digits :: "string \<Rightarrow> nat \<Rightarrow> nat" where
  "scan_digits s j = (if j < length s \<and> isdigit (s ! j) then scan_digits s (j + 1) else j)"
  by pat_completeness auto
termination
  by (relation "measure (\<lambda>(s, j). length s - j)") auto

declare scan_digits.simps [simp del]

definition starts_with_numbered_item :: "string \<Rightarrow> string option" where
  "starts_with_numbered_item line =
     (let s = lstrip line in
      if length s \<ge> 3 \<and> isdigit (s ! 0) then
        (let j = scan_digits s 1 in
         if j < length s \<and> s ! j = CHR ''.'' \<and> j + 1 < length s \<and> s ! (j + 1) = CHR '' ''
         then Some (strip (drop (j + 2) s))
         else None)
      else None)"

text \<open>\<open>_collect_indented_code\<close>: the indented lines from \<open>start\<close> on, one indentation unit
  removed from each, and how many there are.\<close>

definition indented :: "string \<Rightarrow> bool" where
  "indented l = (startswith l ''    '' \<or> startswith l [CHR 0x09])"

function collect_loop :: "string list \<Rightarrow> nat \<Rightarrow> string list \<Rightarrow> string list \<times> nat" where
  "collect_loop lines i buf =
     (if i < length lines then
        (if indented (lines ! i)
         then collect_loop lines (i + 1)
                (buf @ [if startswith (lines ! i) ''    '' then drop 4 (lines ! i) else drop 1 (lines ! i)])
         else (buf, i))
      else (buf, i))"
  by pat_completeness auto
termination
  by (relation "measure (\<lambda>(lines, i, buf). length lines - i)") auto

declare collect_loop.simps [simp del]

definition collect_indented_code :: "string list \<Rightarrow> nat \<Rightarrow> string list \<times> nat" where
  "collect_indented_code lines start =
     (case collect_loop lines start [] of (buf, i) \<Rightarrow> (buf, i - start))"

text \<open>The local state of \<open>markdown_to_html\<close>.\<close>

record md_state =
  html_lines :: "string list"
  in_code :: bool
  code_buf :: "string list"
  list_open :: bool
  ol_open :: bool

definition init_state :: md_state where
  "init_state = \<lparr>html_lines = [], in_code = False, code_buf = [], list_open = False, ol_open = False\<rparr>"

text \<open>\<open>html_lines.append(l)\<close> and the nested \<open>close_lists\<close>.\<close>

definition emit :: "string \<Rightarrow> md_state \<Rightarrow> md_state" where
  "emit l st = st\<lparr>html_lines := html_lines st @ [l]\<rparr>"

definition close_lists :: "md_state \<Rightarrow> md_state" where
  "close_lists st =
     (let st1 = (if list_open st then (emit ''</ul>'' st)\<lparr>list_open := False\<rparr> else st)
      in if ol_open st1 then (emit ''</ol>'' st1)\<lparr>ol_open := False\<rparr> else st1)"

text \<open>One pass through the body of the \<open>while\<close> loop at index \<open>i < len(lines)\<close>: the state
  and the index after it.\<close>

definition md_step :: "string list \<Rightarrow> nat \<Rightarrow> md_state \<Rightarrow> error + (md_state \<times> nat)" where
  "md_step lines i st =
     (let raw = lines ! i; line = rstrip_chars raw [CHR 0x0A] in
      case is_fenced_start line of
        Some fence \<Rightarrow>
          if in_code st then
            Inr (st\<lparr>html_lines := html_lines st @ [''<pre><code>'']
                        @ splitlines (escape (str_join [CHR 0x0A] (code_buf st)))
                        @ [''</code></pre>''],
                    code_buf := [], in_code := False\<rparr>, i + 1)
          else Inr (st\<lparr>in_code := True\<rparr>, i + 1)
      | None \<Rightarrow>
          if in_code st then Inr (st\<lparr>code_buf := code_buf st @ [raw]\<rparr>, i + 1)
          else if startswith line ''#'' then
            (let st1 = close_lists st;
                 level0 = length line - length (lstrip_chars line ''#'');
                 level = max 1 (min 6 level0)
             in case render_inline (strip (drop level line)) of
                  Inl e \<Rightarrow> Inl e
                | Inr h \<Rightarrow>
                    Inr (emit (''<h'' @ str_nat level @ ''>'' @ h @ ''</h'' @ str_nat level @ ''>'') st1,
                         i + 1))
          else if starts_with_numbered_item line \<noteq> None
                  \<and> the (starts_with_numbered_item line) \<noteq> [] then
            (let st1 = (if \<not> ol_open st
                        then (emit ''<ol>'' (close_lists st))\<lparr>ol_open := True\<rparr> else st)
             in case render_inline (the (starts_with_numbered_item line)) of
                  Inl e \<Rightarrow> Inl e
                | Inr h \<Rightarrow> Inr (emit (''<li>'' @ h @ ''</li>'') st1, i + 1))
          else if startswith (strip line) ''- '' then
            (let st1 = (if \<not> list_open st
                        then (emit ''<ul>'' (close_lists st))\<lparr>list_open := True\<rparr> else st)
             in case render_inline (strip (drop 2 (strip line))) of
                  Inl e \<Rightarrow> Inl e
                | Inr h \<Rightarrow> Inr (emit (''<li>'' @ h @ ''</li>'') st1, i + 1))
          else if strip line = [] then Inr (emit [] (close_lists st), i + 1)
          else if startswith line ''    '' \<or> startswith line [CHR 0x09] then
            (case collect_indented_code lines i of
               (code_block, advance) \<Rightarrow>
                 Inr (emit ''</code></pre>''
                        (emit (escape (str_join [CHR 0x0A] code_block))
                           (emit ''<pre><code>'' (close_lists st))),
                      i + advance))
          else
            (case render_inline (strip line) of
               Inl e \<Rightarrow> Inl e
             | Inr h \<Rightarrow> Inr (emit (''<p>'' @ h @ ''</p>'') (close_lists st), i + 1)))"

text \<open>Every pass through the loop body moves the index forward, so the loop ends.\<close>

lemma rstrip_chars_prefix: "\<exists>t. s = rstrip_chars s cs @ t"
proof -
  let ?P = "\<lambda>c. c \<in> set cs"
  have "rev (takeWhile ?P (rev s) @ dropWhile ?P (rev s)) = s"
    by (simp only: takeWhile_dropWhile_id rev_rev_ident)
  then have "s = rev (dropWhile ?P (rev s)) @ rev (takeWhile ?P (rev s))"
    by (simp only: rev_append)
  then show ?thesis unfolding rstrip_chars_def by (rule exI)
qed

lemma startswith_length: "startswith a p \<Longrightarrow> length p \<le> length a"
proof -
  assume "startswith a p"
  then have "length (take (length p) a) = length p" by (simp add: startswith_def)
  then show ?thesis by simp
qed

lemma startswith_append: "startswith a p \<Longrightarrow> startswith (a @ t) p"
  using startswith_length[of a p] by (simp add: startswith_def)

lemma startswith_rstrip_chars:
  assumes "startswith (rstrip_chars s cs) p"
  shows "startswith s p"
proof -
  obtain t where t: "s = rstrip_chars s cs @ t" using rstrip_chars_prefix by blast
  from startswith_append[OF assms, of t] t show ?thesis by simp
qed

lemma collect_loop_mono: "i \<le> snd (collect_loop lines i buf)"
proof (induction lines i buf rule: collect_loop.induct)
  case (1 lines i buf)
  show ?case
  proof (cases "i < length lines \<and> indented (lines ! i)")
    case True
    with 1 have "i + 1 \<le> snd (collect_loop lines (i + 1)
        (buf @ [if startswith (lines ! i) ''    '' then drop 4 (lines ! i) else drop 1 (lines ! i)]))"
      by simp
    with True show ?thesis by (subst collect_loop.simps) simp
  next
    case False
    then show ?thesis by (subst collect_loop.simps) auto
  qed
qed

lemma collect_indented_code_advance:
  assumes "i < length lines" "indented (lines ! i)"
  shows "0 < snd (collect_indented_code lines i)"
proof -
  define b where "b = [if startswith (lines ! i) ''    '' then drop 4 (lines ! i) else drop 1 (lines ! i)]"
  have "collect_loop lines i [] = collect_loop lines (i + 1) b"
    using assms unfolding b_def by (subst collect_loop.simps) simp
  moreover have "i + 1 \<le> snd (collect_loop lines (i + 1) b)" by (rule collect_loop_mono)
  ultimately show ?thesis
    by (auto simp: collect_indented_code_def split: prod.splits)
qed

lemma md_step_advances:
  assumes "i < length lines" "md_step lines i st = Inr (st', i')"
  shows "i < i'"
proof -
  define line where "line = rstrip_chars (lines ! i) [CHR 0x0A]"
  have ind: "startswith line ''    '' \<or> startswith line [CHR 0x09] \<Longrightarrow>
      0 < snd (collect_indented_code lines i)"
    using collect_indented_code_advance[OF assms(1)] startswith_rstrip_chars
    unfolding indented_def line_def by blast
  from assms(2) have "i' = i + 1 \<or>
     ((startswith line ''    '' \<or> startswith line [CHR 0x09]) \<and> i' = i + snd (collect_indented_code lines i))"
    unfolding md_step_def Let_def line_def[symmetric]
    by (simp split: option.splits if_splits sum.splits prod.splits)
  with ind show ?thesis by auto
qed

text \<open>The \<open>while i < len(lines)\<close> loop of \<open>markdown_to_html\<close>, and the function itself.\<close>

function md_loop :: "string list \<Rightarrow> nat \<Rightarrow> md_state \<Rightarrow> error + md_state" where
  "md_loop lines i st =
     (if i < length lines then
        (case md_step lines i st of
           Inl e \<Rightarrow> Inl e
         | Inr (st', i') \<Rightarrow> md_loop lines i' st')
      else Inr st)"
  by pat_completeness auto
termination
proof (relation "measure (\<lambda>(lines, i, st). length lines - i)", goal_cases)
  case 1
  show ?case by simp
next
  case (2 lines i st x st' i')
  then show ?case using md_step_advances[of i lines st st' i'] by auto
qed

declare md_loop.simps [simp del]

definition markdown_to_html :: "string \<Rightarrow> error + string" where
  "markdown_to_html md =
     (case md_loop (splitlines md) 0 init_state of
        Inl e \<Rightarrow> Inl e
      | Inr st \<Rightarrow>
          Inr (str_join [CHR 0x0A]
                 (html_lines st
                  @ (if list_open st then [''</ul>''] else [])
                  @ (if ol_open st then [''</ol>''] else []))))"


section \<open>Files, pages and the index\<close>

text \<open>
  A \<open>Path\<close> is the list of its components (POSIX paths; absolute and resolved ones, from
  the file system root, with no component \<open>..\<close> and no symbolic link on the way). The file
  system is the list of its entries, a file with its text or a directory, in the order in
  which a directory scan yields them; \<open>log\<close> holds the records handed to \<open>logging\<close>.
  Reading the clock, parsing the arguments and loading the configuration files are outside
  the model: the time of a build and the \<open>Config\<close> are parameters.
\<close>

type_synonym path = "string list"

datatype node = File string | Dir

datatype level = DEBUG | INFO | ERROR

record world =
  entries :: "(path \<times> node) list"
  log :: "(level \<times> string) list"

definition node_at :: "world \<Rightarrow> path \<Rightarrow> node option" where
  "node_at w p = (if p = [] then Some Dir else map_of (entries w) p)"

text \<open>\<open>p.exists()\<close>, \<open>p.name\<close>, \<open>s.endswith(t)\<close>, \<open>str(p)\<close> for an absolute and for a relative path.\<close>

definition path_exists :: "world \<Rightarrow> path \<Rightarrow> bool" where
  "path_exists w p = (node_at w p \<noteq> None)"

definition path_name :: "path \<Rightarrow> string" where
  "path_name p = (if p = [] then [] else last p)"

definition endswith :: "string \<Rightarrow> string \<Rightarrow> bool" where
  "endswith s t = (length t \<le> length s \<and> drop (length s - length t) s = t)"

definition str_abs :: "path \<Rightarrow> string" where
  "str_abs p = ''/'' @ str_join ''/'' p"

definition str_rel :: "path \<Rightarrow> string" where
  "str_rel p = (if p = [] then ''.'' else str_join ''/'' p)"

text \<open>\<open>s.rfind('.')\<close>, and \<open>p.suffix\<close>, \<open>p.stem\<close>, \<open>p.with_suffix(s)\<close>, \<open>p.relative_to(root)\<close> of
  pathlib: the suffix starts at the last dot of the name unless that dot is the first or the
  last character.\<close>

definition rfind_dot :: "string \<Rightarrow> nat option" where
  "rfind_dot s =
     (if CHR ''.'' \<in> set s
      then Some (length s - 1 - length (takeWhile (\<lambda>c. c \<noteq> CHR ''.'') (rev s)))
      else None)"

definition path_suffix :: "path \<Rightarrow> string" where
  "path_suffix p =
     (case rfind_dot (path_name p) of
        None \<Rightarrow> []
      | Some i \<Rightarrow> if 0 < i \<and> i < length (path_name p) - 1 then drop i (path_name p) else [])"

definition path_stem :: "path \<Rightarrow> string" where
  "path_stem p =
     (case rfind_dot (path_name p) of
        None \<Rightarrow> path_name p
      | Some i \<Rightarrow> if 0 < i \<and> i < length (path_name p) - 1 then take i (path_name p)
                  else path_name p)"

definition with_suffix :: "path \<Rightarrow> string \<Rightarrow> error + path" where
  "with_suffix p s =
     (if path_name p = [] then Inl ValueError
      else if path_suffix p = [] then Inr (butlast p @ [path_name p @ s])
      else Inr (butlast p @ [take (length (path_name p) - length (path_suffix p)) (path_name p) @ s]))"

definition relative_to :: "path \<Rightarrow> path \<Rightarrow> error + path" where
  "relative_to p root =
     (if take (length root) p = root then Inr (drop (length root) p) else Inl ValueError)"

text \<open>\<open>root.rglob("*" + ext)\<close>: the entries below \<open>root\<close>, directories too, whose name ends with
  \<open>ext\<close>, in the order of the scan.\<close>

definition is_under :: "path \<Rightarrow> path \<Rightarrow> bool" where
  "is_under root p = (length root < length p \<and> take (length root) p = root)"

definition rglob :: "world \<Rightarrow> path \<Rightarrow> string \<Rightarrow> path list" where
  "rglob w root ext = filter (\<lambda>p. is_under root p \<and> endswith (path_name p) ext) (map fst (entries w))"

text \<open>\<open>p.read_text()\<close>, \<open>p.unlink()\<close>, \<open>p.mkdir(parents=True, exist_ok=True)\<close> and
  \<open>p.write_text(t)\<close>.\<close>

definition read_text :: "world \<Rightarrow> path \<Rightarrow> error + string" where
  "read_text w p =
     (case node_at w p of
        Some (File t) \<Rightarrow> Inr t
      | Some Dir \<Rightarrow> Inl IsADirectoryError
      | None \<Rightarrow> Inl FileNotFoundError)"

definition unlink :: "path \<Rightarrow> world \<Rightarrow> (error + unit) \<times> world" where
  "unlink p w =
     (case node_at w p of
        Some (File t) \<Rightarrow> (Inr (), w\<lparr>entries := filter (\<lambda>e. fst e \<noteq> p) (entries w)\<rparr>)
      | Some Dir \<Rightarrow> (Inl IsADirectoryError, w)
      | None \<Rightarrow> (Inl FileNotFoundError, w))"

fun mkdir_each :: "path list \<Rightarrow> path \<Rightarrow> world \<Rightarrow> (error + unit) \<times> world" where
  "mkdir_each [] d w = (Inr (), w)"
| "mkdir_each (q # qs) d w =
     (case node_at w q of
        Some Dir \<Rightarrow> mkdir_each qs d w
      | Some (File t) \<Rightarrow> (Inl (if q = d then FileExistsError else NotADirectoryError), w)
      | None \<Rightarrow> mkdir_each qs d (w\<lparr>entries := entries w @ [(q, Dir)]\<rparr>))"

definition mkdir_parents :: "path \<Rightarrow> world \<Rightarrow> (error + unit) \<times> world" where
  "mkdir_parents d w = mkdir_each (map (\<lambda>k. take k d) [1..<Suc (length d)]) d w"

definition write_file :: "path \<Rightarrow> string \<Rightarrow> world \<Rightarrow> (error + unit) \<times> world" where
  "write_file p t w =
     (case node_at w p of
        Some Dir \<Rightarrow> (Inl IsADirectoryError, w)
      | Some (File old) \<Rightarrow>
          (Inr (), w\<lparr>entries := map (\<lambda>e. if fst e = p then (p, File t) else e) (entries w)\<rparr>)
      | None \<Rightarrow>
          (case node_at w (butlast p) of
             Some Dir \<Rightarrow> (Inr (), w\<lparr>entries := entries w @ [(p, File t)]\<rparr>)
           | Some (File old) \<Rightarrow> (Inl NotADirectoryError, w)
           | None \<Rightarrow> (Inl FileNotFoundError, w)))"

definition logging :: "level \<Rightarrow> string \<Rightarrow> world \<Rightarrow> world" where
  "logging lv msg w = w\<lparr>log := log w @ [(lv, msg)]\<rparr>"

text \<open>\<open>Config\<close>, \<open>HTML_TEMPLATE\<close> and \<open>render_page\<close>; \<open>built\<close> is the formatted time.\<close>

record config =
  site_title :: string
  base_url :: string
  css_href :: string
  date_format :: string
  src_root :: "path option"
  dst_root :: "path option"

definition render_page :: "config \<Rightarrow> string \<Rightarrow> string \<Rightarrow> string \<Rightarrow> string \<Rightarrow> string" where
  \<open>render_page cfg built title content_html canonical_path =
     (let canonical = rstrip_chars (base_url cfg) ''/'' @ ''/'' @ lstrip_chars canonical_path ''/''
      in concat
        [''<!DOCTYPE html>\<newline>'',
         ''<html lang="en">\<newline>'',
         ''<head>\<newline>'',
         ''<meta charset="utf-8">\<newline>'',
         ''<meta name="viewport" content="width=device-width, initial-scale=1">\<newline>'',
         ''<title>'', escape title, ''</title>\<newline>'',
         ''<link rel="canonical" href="'', canonical, ''">\<newline>'',
         ''<link rel="stylesheet" href="'', css_href cfg, ''">\<newline>'',
         ''</head>\<newline>'',
         ''<body>\<newline>'',
         ''<header>\<newline>'',
         ''  <h1><a href="'', rstrip_chars (base_url cfg) ''/'', ''">'', escape (site_title cfg), ''</a></h1>\<newline>'',
         ''</header>\<newline>'',
         ''<main>\<newline>'',
         content_html, ''\<newline>'',
         ''</main>\<newline>'',
         ''<footer>\<newline>'',
         ''  <p>Built '', built, '' UTC</p>\<newline>'',
         ''</footer>\<newline>'',
         ''</body>\<newline>'',
         ''</html>\<newline>''])\<close>

text \<open>\<open>write_text\<close>: the record is logged, and nothing else happens in a dry run.\<close>

definition write_text :: "path \<Rightarrow> string \<Rightarrow> bool \<Rightarrow> world \<Rightarrow> (error + unit) \<times> world" where
  "write_text p t dry_run w =
     (let w1 = logging INFO (''write '' @ str_abs p) w in
      if dry_run then (Inr (), w1)
      else (case mkdir_parents (butlast p) w1 of
              (Inl e, w2) \<Rightarrow> (Inl e, w2)
            | (Inr u, w2) \<Rightarrow> write_file p t w2))"

text \<open>\<open>md_title\<close>: the text of the first line that starts with \<open>#\<close>.\<close>

fun first_heading :: "string list \<Rightarrow> string option" where
  "first_heading [] = None"
| "first_heading (l # ls) =
     (if startswith l ''#'' then Some (strip (lstrip_chars l ''#'')) else first_heading ls)"

definition md_title :: "world \<Rightarrow> path \<Rightarrow> error + string option" where
  "md_title w p =
     (case read_text w p of
        Inl e \<Rightarrow> Inl e
      | Inr t \<Rightarrow> Inr (first_heading (splitlines t)))"

text \<open>\<open>md_title(p) or p.stem.replace("-", " ")\<close>\<close>

definition title_or_stem :: "string option \<Rightarrow> path \<Rightarrow> string" where
  "title_or_stem t p =
     (case t of
        Some s \<Rightarrow> if s \<noteq> [] then s else replace_char CHR ''-'' '' '' (path_stem p)
      | None \<Rightarrow> replace_char CHR ''-'' '' '' (path_stem p))"

text \<open>\<open>md_to_html_file\<close>: the result is the destination, or \<open>None\<close> for a reserved file.\<close>

definition md_to_html_file ::
  "path \<Rightarrow> path \<Rightarrow> path \<Rightarrow> config \<Rightarrow> bool \<Rightarrow> string \<Rightarrow> world \<Rightarrow> (error + path option) \<times> world" where
  "md_to_html_file md_path rel_root out_root cfg dry_run built w =
     (if startswith (path_name md_path) ''__'' \<and> path_suffix md_path = ''.md'' then (Inr None, w)
      else
        (case relative_to md_path rel_root of
           Inl e \<Rightarrow> (Inl e, w)
         | Inr r \<Rightarrow>
        (case with_suffix r ''.html'' of
           Inl e \<Rightarrow> (Inl e, w)
         | Inr rel \<Rightarrow>
        (let dst = out_root @ rel;
             w1 = logging DEBUG (''convert '' @ str_abs md_path @ '' -> '' @ str_abs dst) w in
         case read_text w1 md_path of
           Inl e \<Rightarrow> (Inl e, w1)
         | Inr t \<Rightarrow>
        (case markdown_to_html t of
           Inl e \<Rightarrow> (Inl e, w1)
         | Inr html_body \<Rightarrow>
        (case md_title w1 md_path of
           Inl e \<Rightarrow> (Inl e, w1)
         | Inr ti \<Rightarrow>
        (case write_text dst
                (render_page cfg built (title_or_stem ti md_path) html_body (str_rel rel))
                dry_run w1 of
           (Inl e, w2) \<Rightarrow> (Inl e, w2)
         | (Inr u, w2) \<Rightarrow> (Inr (Some dst), w2))))))))"

text \<open>\<open>collect_md_files\<close>\<close>

definition collect_md_files :: "world \<Rightarrow> path \<Rightarrow> path list" where
  "collect_md_files w root = rglob w root ''.md''"

text \<open>\<open>clean_domain\<close>: the loop over the paths the scan has yielded, and the function. A path
  that is missing when its turn comes raises \<open>FileNotFoundError\<close> in \<open>unlink\<close>, which the
  loop catches.\<close>

fun clean_loop :: "path list \<Rightarrow> bool \<Rightarrow> world \<Rightarrow> (error + unit) \<times> world" where
  "clean_loop [] dry_run w = (Inr (), w)"
| "clean_loop (p # ps) dry_run w =
     (let w1 = logging INFO (''remove '' @ str_abs p) w in
      if \<not> dry_run then
        (case unlink p w1 of
           (Inl e, w2) \<Rightarrow> if e = FileNotFoundError then clean_loop ps dry_run w2 else (Inl e, w2)
         | (Inr u, w2) \<Rightarrow> clean_loop ps dry_run w2)
      else clean_loop ps dry_run w1)"

definition clean_domain :: "path \<Rightarrow> bool \<Rightarrow> world \<Rightarrow> (error + unit) \<times> world" where
  "clean_domain dst_domain_root dry_run w =
     (if \<not> path_exists w dst_domain_root
      then (Inr (), logging INFO (''nothing to clean at '' @ str_abs dst_domain_root) w)
      else clean_loop (rglob w dst_domain_root ''.html'') dry_run w)"

text \<open>\<open>build_index\<close>: the loop that collects the entries, the listing, and the function. The
  separator in the title of the index page is the literal of the source (code points E2,
  20AC and 201D), the two beyond 255 written as their UTF-8 bytes.\<close>

fun index_loop :: "world \<Rightarrow> path \<Rightarrow> path list \<Rightarrow> (string \<times> string) list \<Rightarrow> error + (string \<times> string) list" where
  "index_loop w root [] es = Inr es"
| "index_loop w root (p # ps) es =
     (if startswith (path_name p) ''__'' then index_loop w root ps es
      else
        (case relative_to p root of
           Inl e \<Rightarrow> Inl e
         | Inr r \<Rightarrow>
        (case with_suffix r ''.html'' of
           Inl e \<Rightarrow> Inl e
         | Inr rel_html \<Rightarrow>
        (case md_title w p of
           Inl e \<Rightarrow> Inl e
         | Inr ti \<Rightarrow>
             index_loop w root ps
               (es @ [(replace_char (CHR 0x5C) ''/'' (str_rel rel_html), title_or_stem ti p)])))))"

definition index_entries :: "world \<Rightarrow> path \<Rightarrow> error + (string \<times> string) list" where
  "index_entries w root =
     (case index_loop w root (rglob w root ''.md'') [] of
        Inl e \<Rightarrow> Inl e
      | Inr es \<Rightarrow> Inr (sort es))"

definition listing_item :: "string \<times> string \<Rightarrow> string" where
  \<open>listing_item e = ''<li><a href="'' @ fst e @ ''">'' @ escape (snd e) @ ''</a></li>''\<close>

definition index_listing :: "(string \<times> string) list \<Rightarrow> string list" where
  "index_listing es = [''<h2>Posts</h2>'', ''<ul>''] @ map listing_item es @ [''</ul>'']"

definition index_title_suffix :: string where
  "index_title_suffix =
     '' '' @ [CHR 0xE2, CHR 0xE2, CHR 0x82, CHR 0xAC, CHR 0xE2, CHR 0x80, CHR 0x9D] @ '' Index''"

definition index_page :: "config \<Rightarrow> string \<Rightarrow> world \<Rightarrow> path \<Rightarrow> error + string" where
  "index_page cfg built w domain_src_root =
     (case (if path_exists w (domain_src_root @ [''__index__.md''])
            then (case read_text w (domain_src_root @ [''__index__.md'']) of
                    Inl e \<Rightarrow> Inl e
                  | Inr t \<Rightarrow> markdown_to_html t)
            else Inr ''<h2>Index</h2>'') of
        Inl e \<Rightarrow> Inl e
      | Inr body \<Rightarrow>
          (case index_entries w domain_src_root of
             Inl e \<Rightarrow> Inl e
           | Inr es \<Rightarrow>
               Inr (render_page cfg built (site_title cfg @ index_title_suffix)
                      (body @ [CHR 0x0A] @ str_join [CHR 0x0A] (index_listing es))
                      ''index.html'')))"

definition build_index ::
  "path \<Rightarrow> path \<Rightarrow> config \<Rightarrow> bool \<Rightarrow> string \<Rightarrow> world \<Rightarrow> (error + unit) \<times> world" where
  "build_index domain_src_root domain_dst_root cfg dry_run built w =
     (case index_page cfg built w domain_src_root of
        Inl e \<Rightarrow> (Inl e, w)
      | Inr page \<Rightarrow> write_text (domain_dst_root @ [''index.html'']) page dry_run w)"

text \<open>\<open>base / s\<close> of pathlib for a string \<open>s\<close>: the components of \<open>s\<close> are what stands
  between its slashes, the empty ones and \<open>.\<close> left out; they are appended to \<open>base\<close>, or
  stand alone when \<open>s\<close> is absolute. A component \<open>..\<close> is kept as it is, as pathlib keeps it:
  the entries of the file system are named by resolved paths, so a path through \<open>..\<close> names
  none of them. A string that starts with exactly two slashes keeps them as its root in
  pathlib; the file system reads them as one, and so does the model.\<close>

fun split_slash :: "string \<Rightarrow> string list" where
  "split_slash [] = [[]]"
| "split_slash (c # cs) =
     (if c = CHR ''/'' then [] # split_slash cs
      else (c # hd (split_slash cs)) # tl (split_slash cs))"

definition path_parts :: "string \<Rightarrow> path" where
  "path_parts s = filter (\<lambda>c. c \<noteq> [] \<and> c \<noteq> ''.'') (split_slash s)"

definition path_join :: "path \<Rightarrow> string \<Rightarrow> path" where
  "path_join base s = (if startswith s ''/'' then path_parts s else base @ path_parts s)"

text \<open>\<open>run_build\<close> and \<open>run_clean\<close> from the resolved \<open>Config\<close> on; \<open>built\<close> gives the time at
  which the page for a destination is rendered.\<close>

fun convert_loop ::
  "path list \<Rightarrow> path \<Rightarrow> path \<Rightarrow> config \<Rightarrow> bool \<Rightarrow> (path \<Rightarrow> string) \<Rightarrow> world \<Rightarrow> (error + unit) \<times> world" where
  "convert_loop [] domain_src domain_dst cfg dry_run built w = (Inr (), w)"
| "convert_loop (md # mds) domain_src domain_dst cfg dry_run built w =
     (case md_to_html_file md domain_src domain_dst cfg dry_run (built md) w of
        (Inl e, w1) \<Rightarrow> (Inl e, w1)
      | (Inr r, w1) \<Rightarrow> convert_loop mds domain_src domain_dst cfg dry_run built w1)"

definition run_build ::
  "config \<Rightarrow> string \<Rightarrow> bool \<Rightarrow> bool \<Rightarrow> (path \<Rightarrow> string) \<Rightarrow> world \<Rightarrow> (error + unit) \<times> world" where
  "run_build cfg domain clean_first dry_run built w =
     (case src_root cfg of
        None \<Rightarrow> (Inl (SystemExit 2), logging ERROR ''src_root not set via CLI or config'' w)
      | Some sr \<Rightarrow>
     (case dst_root cfg of
        None \<Rightarrow> (Inl (SystemExit 2), logging ERROR ''dst_root not set via CLI or config'' w)
      | Some dr \<Rightarrow>
     (let domain_src = path_join sr domain; domain_dst = path_join dr domain in
      if \<not> path_exists w domain_src
      then (Inl (SystemExit 2),
            logging ERROR (''domain source path does not exist: '' @ str_abs domain_src) w)
      else
        (case (if clean_first then clean_domain domain_dst dry_run w else (Inr (), w)) of
           (Inl e, w1) \<Rightarrow> (Inl e, w1)
         | (Inr u, w1) \<Rightarrow>
        (let md_files = collect_md_files w1 domain_src;
             w2 = logging INFO (''found '' @ str_nat (length md_files) @ '' markdown files'') w1 in
         case convert_loop md_files domain_src domain_dst cfg dry_run built w2 of
           (Inl e, w3) \<Rightarrow> (Inl e, w3)
         | (Inr u, w3) \<Rightarrow>
        (case build_index domain_src domain_dst cfg dry_run (built (domain_dst @ [''index.html''])) w3 of
           (Inl e, w4) \<Rightarrow> (Inl e, w4)
         | (Inr u, w4) \<Rightarrow> (Inr (), logging INFO (''build complete for '' @ domain) w4)))))))"

definition run_clean :: "config \<Rightarrow> string \<Rightarrow> bool \<Rightarrow> world \<Rightarrow> (error + unit) \<times> world" where
  "run_clean cfg domain dry_run w =
     (case dst_root cfg of
        None \<Rightarrow> (Inl (SystemExit 2), logging ERROR ''dst_root not set via CLI or config'' w)
      | Some dr \<Rightarrow>
          (case clean_domain (path_join dr domain) dry_run w of
             (Inl e, w1) \<Rightarrow> (Inl e, w1)
           | (Inr u, w1) \<Rightarrow> (Inr (), logging INFO (''clean complete for '' @ domain) w1)))"


text \<open>What wrapping the alternating segments means: the parts at odd positions, the ones
  enclosed by a pair of delimiters, stand between the tags; the others stand as they are.\<close>

definition wrap_alternating :: "string list \<Rightarrow> string \<Rightarrow> string \<Rightarrow> string" where
  "wrap_alternating parts open_tag close_tag =
     concat (map (\<lambda>i. if odd i then open_tag @ parts ! i @ close_tag else parts ! i)
                 [0..<length parts])"

section \<open>The delimiter pass\<close>

text \<open>The loop leaves \<open>toggle\<close> true exactly after an odd number of parts.\<close>

lemma wrap_loop_spec:
  "wrap_loop ps ot ct t out =
     (out @ map (\<lambda>i. if odd i \<noteq> t then ot @ ps ! i @ ct else ps ! i) [0..<length ps],
      t \<noteq> odd (length ps))"
proof (induction ps arbitrary: t out)
  case Nil
  show ?case by simp
next
  case (Cons p ps)
  have "[0..<length (p # ps)] = 0 # map Suc [0..<length ps]"
    by (simp add: upt_conv_Cons map_Suc_upt del: upt_Suc)
  then show ?case
    by (auto simp: Cons.IH comp_def simp del: upt_Suc)
qed

lemma length_split_from:
  "sep \<noteq> [] \<Longrightarrow> length (split_from sep cur s) = Suc (count_from sep s)"
  by (induction sep cur s rule: split_from.induct) auto

lemma replace_delimited_few:
  "delim \<noteq> [] \<Longrightarrow> length (split_from delim [] s) < 3 \<Longrightarrow>
   replace_delimited s delim ot ct = Inr s"
  by (simp add: replace_delimited_def str_split_def)

text \<open>With an even number of delimiters the number of parts is odd, \<open>toggle\<close> ends true and
  the pass returns its input; with an odd number, at least three, it returns the joined parts.\<close>

lemma replace_delimited_even_count:
  assumes "delim \<noteq> []" "even (str_count s delim)"
  shows "replace_delimited s delim ot ct = Inr s"
proof -
  let ?ps = "split_from delim [] s"
  have len: "length ?ps = Suc (str_count s delim)"
    using assms(1) by (simp add: length_split_from str_count_def)
  with assms have "odd (length ?ps)" by auto
  then show ?thesis using assms(1)
    by (simp add: replace_delimited_def str_split_def wrap_loop_spec)
qed

lemma replace_delimited_odd_count:
  assumes "delim \<noteq> []" "odd (str_count s delim)" "3 \<le> str_count s delim"
  shows "replace_delimited s delim ot ct = Inr (wrap_alternating (split_from delim [] s) ot ct)"
proof -
  let ?ps = "split_from delim [] s"
  have len: "length ?ps = Suc (str_count s delim)"
    using assms(1) by (simp add: length_split_from str_count_def)
  with assms have "even (length ?ps)" "\<not> length ?ps < 3" by auto
  then show ?thesis using assms(1)
    by (simp add: replace_delimited_def str_split_def wrap_loop_spec wrap_alternating_def)
qed


section \<open>Facts about the block renderer\<close>

lemma replace_delimited_total:
  "delim \<noteq> [] \<Longrightarrow> \<exists>r. replace_delimited s delim ot ct = Inr r"
  by (simp add: replace_delimited_def str_split_def split: prod.splits)

lemma render_inline_total: "\<exists>h. render_inline t = Inr h"
proof -
  obtain t1 where t1: "replace_delimited (escape t) ''`'' ''<code>'' ''</code>'' = Inr t1"
    using replace_delimited_total[of "''`''"] by blast
  obtain t2 where t2: "replace_delimited t1 ''**'' ''<strong>'' ''</strong>'' = Inr t2"
    using replace_delimited_total[of "''**''"] by blast
  obtain t3 where t3: "replace_delimited t2 ''*'' ''<em>'' ''</em>'' = Inr t3"
    using replace_delimited_total[of "''*''"] by blast
  show ?thesis by (simp add: render_inline_def t1 t2 t3)
qed

text \<open>\<open>_render_inline\<close> raises nothing: every delimiter it passes on is non-empty. The string
  it returns is \<open>inline_html\<close>.\<close>

definition inline_html :: "string \<Rightarrow> string" where
  "inline_html t = (case render_inline t of Inr h \<Rightarrow> h | Inl e \<Rightarrow> [])"

lemma render_inline_eq: "render_inline t = Inr (inline_html t)"
  using render_inline_total[of t] by (auto simp: inline_html_def)

lemma rstrip_chars_idem: "rstrip_chars (rstrip_chars s cs) cs = rstrip_chars s cs"
proof -
  let ?P = "\<lambda>c. c \<in> set cs"
  have "dropWhile ?P (dropWhile ?P (rev s)) = dropWhile ?P (rev s)"
    by (simp add: dropWhile_idem)
  then show ?thesis by (simp add: rstrip_chars_def)
qed

lemma is_fenced_start_rstrip:
  "is_fenced_start (rstrip_chars l [CHR 0x0A]) = is_fenced_start l"
  by (simp add: is_fenced_start_def rstrip_chars_idem)

lemma md_step_fence_open:
  assumes "is_fenced_start (lines ! i) = Some f" "\<not> in_code st"
  shows "md_step lines i st = Inr (st\<lparr>in_code := True\<rparr>, i + 1)"
  using assms by (simp add: md_step_def Let_def is_fenced_start_rstrip)

lemma md_step_fence_close:
  assumes "is_fenced_start (lines ! i) = Some f" "in_code st"
  shows "md_step lines i st =
    Inr (st\<lparr>html_lines := html_lines st @ [''<pre><code>'']
                  @ splitlines (escape (str_join [CHR 0x0A] (code_buf st)))
                  @ [''</code></pre>''],
             code_buf := [], in_code := False\<rparr>, i + 1)"
  using assms by (simp add: md_step_def Let_def is_fenced_start_rstrip)

lemma md_step_buffer:
  assumes "is_fenced_start (lines ! i) = None" "in_code st"
  shows "md_step lines i st = Inr (st\<lparr>code_buf := code_buf st @ [lines ! i]\<rparr>, i + 1)"
  using assms by (simp add: md_step_def Let_def is_fenced_start_rstrip)

lemma md_loop_buffer:
  assumes "in_code st" "\<forall>l \<in> set (drop i lines). is_fenced_start l = None"
  shows "md_loop lines i st = Inr (st\<lparr>code_buf := code_buf st @ drop i lines\<rparr>)"
  using assms
proof (induction "length lines - i" arbitrary: i st)
  case 0
  then show ?case by (subst md_loop.simps) simp
next
  case (Suc n)
  then have lt: "i < length lines" by simp
  then have "lines ! i \<in> set (drop i lines)"
    by (metis Cons_nth_drop_Suc list.set_intros(1))
  with Suc.prems have nf: "is_fenced_start (lines ! i) = None" by blast
  have rest: "\<forall>l \<in> set (drop (i + 1) lines). is_fenced_start l = None"
    using Suc.prems(2) by (metis Suc_eq_plus1 in_set_dropD drop_Suc drop_drop set_drop_subset subsetD add.commute)
  have "md_loop lines i st = md_loop lines (i + 1) (st\<lparr>code_buf := code_buf st @ [lines ! i]\<rparr>)"
    using lt by (subst md_loop.simps) (simp add: md_step_buffer[OF nf Suc.prems(1)])
  also have "\<dots> = Inr (st\<lparr>code_buf := code_buf st @ [lines ! i]\<rparr>\<lparr>code_buf := code_buf (st\<lparr>code_buf := code_buf st @ [lines ! i]\<rparr>) @ drop (i + 1) lines\<rparr>)"
    using Suc.hyps(2) Suc.prems(1) rest by (intro Suc.hyps(1)) auto
  finally show ?case using lt by (simp add: Cons_nth_drop_Suc)
qed


lemma collect_loop_prefix:
  assumes "\<not> indented x"
  shows "i \<le> length pre \<Longrightarrow> collect_loop (pre @ x # rest) i buf = collect_loop pre i buf"
proof (induction pre i buf rule: collect_loop.induct)
  case (1 pre i buf)
  show ?case
  proof (cases "i < length pre")
    case True
    show ?thesis
    proof (cases "indented (pre ! i)")
      case ind: True
      have "collect_loop (pre @ x # rest) (i + 1)
              (buf @ [if startswith (pre ! i) ''    '' then drop 4 (pre ! i) else drop 1 (pre ! i)])
          = collect_loop pre (i + 1)
              (buf @ [if startswith (pre ! i) ''    '' then drop 4 (pre ! i) else drop 1 (pre ! i)])"
        using True ind by (intro 1) auto
      then show ?thesis using True ind
        by (subst collect_loop.simps, subst (2) collect_loop.simps) (auto simp: nth_append)
    next
      case False
      then show ?thesis using True
        by (subst collect_loop.simps, subst (2) collect_loop.simps) (simp add: nth_append)
    qed
  next
    case False
    with 1(2) have "i = length pre" by simp
    then show ?thesis using assms
      by (subst collect_loop.simps, subst (2) collect_loop.simps) simp
  qed
qed

lemma collect_loop_bound:
  "i \<le> length lines \<Longrightarrow> snd (collect_loop lines i buf) \<le> length lines"
proof (induction lines i buf rule: collect_loop.induct)
  case (1 lines i buf)
  show ?case
  proof (cases "i < length lines \<and> indented (lines ! i)")
    case True
    then have "snd (collect_loop lines (i + 1)
        (buf @ [if startswith (lines ! i) ''    '' then drop 4 (lines ! i) else drop 1 (lines ! i)]))
        \<le> length lines"
      by (intro 1) auto
    with True show ?thesis by (subst collect_loop.simps) simp
  next
    case False
    then show ?thesis using 1(2) by (subst collect_loop.simps) auto
  qed
qed

lemma md_step_prefix:
  assumes "\<not> indented x" "i < length pre"
  shows "md_step (pre @ x # rest) i st = md_step pre i st"
proof -
  have ce: "collect_indented_code (pre @ x # rest) i = collect_indented_code pre i"
    using assms by (simp add: collect_indented_code_def collect_loop_prefix)
  have nth: "(pre @ x # rest) ! i = pre ! i"
    using assms(2) by (simp add: nth_append)
  show ?thesis
    unfolding md_step_def nth ce by (rule refl)
qed

lemma md_step_bound:
  assumes "i < length lines" "md_step lines i st = Inr (st', i')"
  shows "i' \<le> length lines"
proof -
  have c: "i + snd (collect_indented_code lines i) \<le> length lines"
    using collect_loop_bound[of i lines "[]"] collect_loop_mono[of i lines "[]"] assms(1)
    by (auto simp: collect_indented_code_def split: prod.splits)
  from assms(2) have "i' = i + 1 \<or> i' = i + snd (collect_indented_code lines i)"
    unfolding md_step_def Let_def
    by (simp split: option.splits if_splits sum.splits prod.splits)
  with c assms(1) show ?thesis by auto
qed

lemma md_loop_prefix:
  assumes "\<not> indented x"
  shows "i \<le> length pre \<Longrightarrow>
     md_loop (pre @ x # rest) i st =
       (case md_loop pre i st of
          Inl e \<Rightarrow> Inl e
        | Inr st' \<Rightarrow> md_loop (pre @ x # rest) (length pre) st')"
proof (induction pre i st rule: md_loop.induct)
  case (1 pre i st)
  show ?case
  proof (cases "i < length pre")
    case True
    show ?thesis
    proof (cases "md_step pre i st")
      case (Inl e)
      then show ?thesis using True
        by (subst md_loop.simps, subst (2) md_loop.simps) (simp add: md_step_prefix[OF assms True])
    next
      case (Inr p)
      obtain st' i' where p: "p = (st', i')" by (cases p)
      have b: "i' \<le> length pre" using md_step_bound[OF True] Inr p by blast
      have "md_loop (pre @ x # rest) i' st' =
         (case md_loop pre i' st' of Inl e \<Rightarrow> Inl e
          | Inr st'' \<Rightarrow> md_loop (pre @ x # rest) (length pre) st'')"
        using True Inr p b by (intro 1) auto
      then show ?thesis using True Inr p
        by (subst md_loop.simps, subst (2) md_loop.simps) (simp add: md_step_prefix[OF assms True])
    qed
  next
    case False
    with 1(2) have "i = length pre" by simp
    then show ?thesis by (subst (2) md_loop.simps) simp
  qed
qed

lemma startswith_Cons: "startswith l (c # p) \<Longrightarrow> \<exists>t. l = c # t"
  by (cases l) (auto simp: startswith_def)

lemma startswith_fence_not_indented:
  assumes "is_fenced_start l = Some f"
  shows "\<not> indented l"
proof -
  from assms have "startswith (rstrip_chars l [CHR 0x0A]) ''```''"
    by (simp add: is_fenced_start_def Let_def split: if_splits)
  then have "startswith l ''```''" by (rule startswith_rstrip_chars)
  then obtain t where "l = CHR 0x60 # t" using startswith_Cons by blast
  then show ?thesis by (auto simp: indented_def dest!: startswith_Cons)
qed

definition closers :: "md_state \<Rightarrow> string list" where
  "closers st = (if list_open st then [''</ul>''] else []) @ (if ol_open st then [''</ol>''] else [])"
















definition open_ol :: "md_state \<Rightarrow> md_state" where
  "open_ol st = (if \<not> ol_open st then (emit ''<ol>'' (close_lists st))\<lparr>ol_open := True\<rparr> else st)"

definition open_ul :: "md_state \<Rightarrow> md_state" where
  "open_ul st = (if \<not> list_open st then (emit ''<ul>'' (close_lists st))\<lparr>list_open := True\<rparr> else st)"



lemma emit_fields [simp]:
  "html_lines (emit l st) = html_lines st @ [l]"
  "in_code (emit l st) = in_code st"
  "code_buf (emit l st) = code_buf st"
  "list_open (emit l st) = list_open st"
  "ol_open (emit l st) = ol_open st"
  by (simp_all add: emit_def)

lemma close_lists_fields [simp]:
  "html_lines (close_lists st) = html_lines st @ closers st"
  "in_code (close_lists st) = in_code st"
  "code_buf (close_lists st) = code_buf st"
  "list_open (close_lists st) = False"
  "ol_open (close_lists st) = False"
  by (simp_all add: close_lists_def closers_def Let_def)

lemma open_ol_fields [simp]:
  "html_lines (open_ol st) = html_lines st @ (if ol_open st then [] else closers st @ [''<ol>''])"
  "in_code (open_ol st) = in_code st"
  "code_buf (open_ol st) = code_buf st"
  "list_open (open_ol st) = (ol_open st \<and> list_open st)"
  "ol_open (open_ol st) = True"
  by (simp_all add: open_ol_def)

lemma open_ul_fields [simp]:
  "html_lines (open_ul st) = html_lines st @ (if list_open st then [] else closers st @ [''<ul>''])"
  "in_code (open_ul st) = in_code st"
  "code_buf (open_ul st) = code_buf st"
  "list_open (open_ul st) = True"
  "ol_open (open_ul st) = (list_open st \<and> ol_open st)"
  by (simp_all add: open_ul_def)

definition li :: "string \<Rightarrow> string" where
  "li t = ''<li>'' @ inline_html t @ ''</li>''"















lemma md_step_total: "\<exists>st' i'. md_step lines i st = Inr (st', i')"
proof -
  define line where "line = rstrip_chars (lines ! i) [CHR 0x0A]"
  note d = md_step_def Let_def line_def[symmetric] render_inline_eq
  show ?thesis
  proof (cases "is_fenced_start line")
    case (Some f)
    then show ?thesis unfolding d by simp
  next
    case None
    show ?thesis
    proof (cases "in_code st")
      case True
      then show ?thesis using None unfolding d by simp
    next
      case nc: False
      show ?thesis
      proof (cases "startswith line ''#''")
        case True
        then show ?thesis using None nc unfolding d by simp
      next
        case nh: False
        show ?thesis
        proof (cases "starts_with_numbered_item line \<noteq> None \<and> the (starts_with_numbered_item line) \<noteq> []")
          case True
          then show ?thesis using None nc nh unfolding d by simp
        next
          case nn: False
          show ?thesis
          proof (cases "startswith (strip line) ''- ''")
            case True
            then show ?thesis using None nc nh nn unfolding d by simp
          next
            case nb: False
            show ?thesis
            proof (cases "strip line = []")
              case True
              then show ?thesis using None nc nh nn nb unfolding d by simp
            next
              case ne: False
              show ?thesis
              proof (cases "startswith line ''    '' \<or> startswith line [CHR 0x09]")
                case True
                then show ?thesis using None nc nh nn nb ne unfolding d
                  by (simp split: prod.splits)
              next
                case False
                then show ?thesis using None nc nh nn nb ne unfolding d by simp
              qed
            qed
          qed
        qed
      qed
    qed
  qed
qed


lemma md_loop_total: "\<exists>fin. md_loop lines i st = Inr fin"
proof (induction lines i st rule: md_loop.induct)
  case (1 lines i st)
  show ?case
  proof (cases "i < length lines")
    case True
    obtain st' i' where s: "md_step lines i st = Inr (st', i')" using md_step_total by blast
    from "1.IH"[OF True s refl] obtain fin where "md_loop lines i' st' = Inr fin" by blast
    then show ?thesis using True s by (subst md_loop.simps) simp
  next
    case False
    then show ?thesis by (subst md_loop.simps) simp
  qed
qed
















section \<open>Facts about files and the index\<close>

lemma logging_fields [simp]:
  "entries (logging lv m w) = entries w"
  "log (logging lv m w) = log w @ [(lv, m)]"
  "node_at (logging lv m w) p = node_at w p"
  "path_exists (logging lv m w) p = path_exists w p"
  by (simp_all add: logging_def node_at_def path_exists_def)

lemma map_of_filter_other:
  "q \<noteq> p \<Longrightarrow> map_of (filter (\<lambda>e. fst e \<noteq> p) es) q = map_of es q"
  by (induction es) auto

lemma map_of_filter_same: "map_of (filter (\<lambda>e. fst e \<noteq> p) es) p = None"
  by (induction es) auto

lemma map_of_None_filter:
  "map_of es p = None \<Longrightarrow> filter (\<lambda>e. fst e \<noteq> p) es = es"
  by (induction es) (auto split: if_splits)

definition remove_records :: "path list \<Rightarrow> (level \<times> string) list" where
  "remove_records ps = map (\<lambda>p. (INFO, ''remove '' @ str_abs p)) ps"

lemma clean_loop_dry:
  "clean_loop ps True w = (Inr (), w\<lparr>log := log w @ remove_records ps\<rparr>)"
proof (induction ps arbitrary: w)
  case Nil
  show ?case by (simp add: remove_records_def)
next
  case (Cons p ps)
  show ?case by (simp add: Cons.IH remove_records_def logging_def)
qed

lemma clean_loop_real:
  "\<forall>p \<in> set ps. node_at w p \<noteq> Some Dir \<Longrightarrow>
   clean_loop ps False w =
     (Inr (), w\<lparr>entries := filter (\<lambda>e. fst e \<notin> set ps) (entries w),
                log := log w @ remove_records ps\<rparr>)"
proof (induction ps arbitrary: w)
  case Nil
  show ?case by (simp add: remove_records_def)
next
  case (Cons p ps)
  define w1 where "w1 = logging INFO (''remove '' @ str_abs p) w"
  have pne: "p \<noteq> []" using Cons.prems by (auto simp: node_at_def)
  have nd: "node_at w1 p \<noteq> Some Dir" using Cons.prems by (simp add: w1_def)
  show ?case
  proof (cases "node_at w1 p")
    case None
    then have u: "unlink p w1 = (Inl FileNotFoundError, w1)" by (simp add: unlink_def)
    have same: "filter (\<lambda>e. fst e \<noteq> p) (entries w) = entries w"
      using None pne by (intro map_of_None_filter) (simp add: w1_def node_at_def)
    have ih: "clean_loop ps False w1 =
      (Inr (), w1\<lparr>entries := filter (\<lambda>e. fst e \<notin> set ps) (entries w1),
                  log := log w1 @ remove_records ps\<rparr>)"
      using Cons.prems by (intro Cons.IH) (simp add: w1_def)
    have "filter (\<lambda>e. fst e \<notin> set (p # ps)) (entries w)
        = filter (\<lambda>e. fst e \<notin> set ps) (filter (\<lambda>e. fst e \<noteq> p) (entries w))"
      by (simp add: conj_commute)
    then have f: "filter (\<lambda>e. fst e \<notin> set (p # ps)) (entries w)
        = filter (\<lambda>e. fst e \<notin> set ps) (entries w)"
      by (simp only: same)
    show ?thesis
      using u ih unfolding f
      by (simp add: w1_def[symmetric]) (simp add: w1_def logging_def remove_records_def)
  next
    case (Some n)
    with nd obtain t where t: "node_at w1 p = Some (File t)" by (cases n) auto
    define w2 where "w2 = w1\<lparr>entries := filter (\<lambda>e. fst e \<noteq> p) (entries w1)\<rparr>"
    have u: "unlink p w1 = (Inr (), w2)" using t by (simp add: unlink_def w2_def)
    have nd2: "\<forall>q \<in> set ps. node_at w2 q \<noteq> Some Dir"
    proof
      fix q assume q: "q \<in> set ps"
      then have a: "node_at w q \<noteq> Some Dir" using Cons.prems by simp
      show "node_at w2 q \<noteq> Some Dir"
      proof (cases "q = p")
        case True
        then show ?thesis using pne by (simp add: w2_def node_at_def map_of_filter_same)
      next
        case False
        then show ?thesis using a
          by (auto simp: w2_def w1_def node_at_def map_of_filter_other split: if_splits)
      qed
    qed
    have ih: "clean_loop ps False w2 =
      (Inr (), w2\<lparr>entries := filter (\<lambda>e. fst e \<notin> set ps) (entries w2),
                  log := log w2 @ remove_records ps\<rparr>)"
      using nd2 by (rule Cons.IH)
    have f: "filter (\<lambda>e. fst e \<notin> set ps) (filter (\<lambda>e. fst e \<noteq> p) (entries w))
        = filter (\<lambda>e. fst e \<notin> set (p # ps)) (entries w)"
      by (simp add: conj_commute)
    show ?thesis
      using u ih
      by (simp add: w1_def[symmetric]) (simp add: w2_def w1_def logging_def remove_records_def f)
  qed
qed

lemma mkdir_each_log: "log (snd (mkdir_each qs d w)) = log w"
  by (induction qs arbitrary: w) (auto split: option.splits node.splits)

lemma write_file_log: "log (snd (write_file p t w)) = log w"
  by (simp add: write_file_def split: option.splits node.splits)

lemma unlink_log: "log (snd (unlink p w)) = log w"
  by (simp add: unlink_def split: option.splits node.splits)

lemma mkdir_parents_log: "log (snd (mkdir_parents d w)) = log w"
  unfolding mkdir_parents_def by (rule mkdir_each_log)

lemma write_text_dry:
  "write_text p t True w = (Inr (), logging INFO (''write '' @ str_abs p) w)"
  by (simp add: write_text_def)

lemma write_text_log:
  "log (snd (write_text p t dry w)) = log w @ [(INFO, ''write '' @ str_abs p)]"
proof (cases dry)
  case True
  then show ?thesis by (simp add: write_text_dry)
next
  case False
  define w1 where "w1 = logging INFO (''write '' @ str_abs p) w"
  obtain r w2 where m: "mkdir_parents (butlast p) w1 = (r, w2)" by (cases "mkdir_parents (butlast p) w1")
  have l2: "log w2 = log w1" using mkdir_parents_log[of "butlast p" w1] m by simp
  have l1: "log w1 = log w @ [(INFO, ''write '' @ str_abs p)]" by (simp add: w1_def)
  have wt: "write_text p t dry w = (case r of Inl e \<Rightarrow> (Inl e, w2) | Inr u \<Rightarrow> write_file p t w2)"
    using False m unfolding write_text_def Let_def w1_def[symmetric] by (cases r) simp_all
  show ?thesis
  proof (cases r)
    case (Inl e)
    then show ?thesis unfolding wt using l1 l2 by simp
  next
    case (Inr u)
    then show ?thesis unfolding wt using l1 l2 write_file_log[of p t w2] by simp
  qed
qed

lemma read_text_logging [simp]: "read_text (logging lv m w) p = read_text w p"
  by (simp add: read_text_def)

lemma md_title_logging [simp]: "md_title (logging lv m w) p = md_title w p"
  by (simp add: md_title_def)

lemma md_to_html_file_cases:
  obtains
    (reserved) "\<And>dry. md_to_html_file md rel_root out_root cfg dry built w = (Inr None, w)"
  | (failed) e w1 where
      "\<And>dry. md_to_html_file md rel_root out_root cfg dry built w = (Inl e, w1)"
      "entries w1 = entries w"
  | (page) dst content w1 where
      "\<And>dry. md_to_html_file md rel_root out_root cfg dry built w =
         (case write_text dst content dry w1 of
            (Inl e, w2) \<Rightarrow> (Inl e, w2)
          | (Inr u, w2) \<Rightarrow> (Inr (Some dst), w2))"
      "entries w1 = entries w"
proof (cases "startswith (path_name md) ''__'' \<and> path_suffix md = ''.md''")
  case True
  then have "\<And>dry. md_to_html_file md rel_root out_root cfg dry built w = (Inr None, w)"
    by (simp add: md_to_html_file_def)
  then show thesis by (rule reserved)
next
  case False
  then have nr: "(startswith (path_name md) ''__'' \<and> path_suffix md = ''.md'') = False" by simp
  show thesis
  proof (cases "relative_to md rel_root")
    case (Inl e)
    have "\<And>dry. md_to_html_file md rel_root out_root cfg dry built w = (Inl e, w)"
      unfolding md_to_html_file_def nr Inl by simp
    then show thesis by (rule failed) simp
  next
    case r: (Inr r)
    show thesis
    proof (cases "with_suffix r ''.html''")
      case (Inl e)
      have "\<And>dry. md_to_html_file md rel_root out_root cfg dry built w = (Inl e, w)"
        by (simp add: md_to_html_file_def nr r Inl)
      then show thesis by (rule failed) simp
    next
      case rel: (Inr rel)
      let ?w1 = "logging DEBUG (''convert '' @ str_abs md @ '' -> '' @ str_abs (out_root @ rel)) w"
      have e1: "entries ?w1 = entries w" by simp
      note d = md_to_html_file_def nr r rel Let_def
      show thesis
      proof (cases "read_text w md")
        case (Inl e)
        have "\<And>dry. md_to_html_file md rel_root out_root cfg dry built w = (Inl e, ?w1)"
          by (simp add: d Inl)
        then show thesis using e1 by (rule failed)
      next
        case t: (Inr t)
        show thesis
        proof (cases "markdown_to_html t")
          case (Inl e)
          have "\<And>dry. md_to_html_file md rel_root out_root cfg dry built w = (Inl e, ?w1)"
            by (simp add: d t Inl)
          then show thesis using e1 by (rule failed)
        next
          case h: (Inr html_body)
          show thesis
          proof (cases "md_title w md")
            case (Inl e)
            have "\<And>dry. md_to_html_file md rel_root out_root cfg dry built w = (Inl e, ?w1)"
              by (simp add: d t h Inl)
            then show thesis using e1 by (rule failed)
          next
            case ti: (Inr ti)
            have "\<And>dry. md_to_html_file md rel_root out_root cfg dry built w =
               (case write_text (out_root @ rel)
                       (render_page cfg built (title_or_stem ti md) html_body (str_rel rel)) dry ?w1 of
                  (Inl e, w2) \<Rightarrow> (Inl e, w2)
                | (Inr u, w2) \<Rightarrow> (Inr (Some (out_root @ rel)), w2))"
              by (simp add: d t h ti)
            then show thesis using e1 by (rule page)
          qed
        qed
      qed
    qed
  qed
qed

lemma md_to_html_file_dry_entries:
  "entries (snd (md_to_html_file md rel_root out_root cfg True built w)) = entries w"
proof (cases rule: md_to_html_file_cases[of md rel_root out_root cfg built w])
  case reserved
  then show ?thesis by simp
next
  case (failed e w1)
  then show ?thesis by simp
next
  case (page dst content w1)
  then show ?thesis by (simp add: write_text_dry)
qed

lemma case_write_log:
  "log (snd (case x of (Inl e, w2) \<Rightarrow> (Inl e, w2) | (Inr u, w2) \<Rightarrow> (Inr (f u), w2))) = log (snd x)"
  by (cases x; cases "fst x") auto

lemma md_to_html_file_log:
  "log (snd (md_to_html_file md rel_root out_root cfg True built w))
   = log (snd (md_to_html_file md rel_root out_root cfg False built w))"
proof (cases rule: md_to_html_file_cases[of md rel_root out_root cfg built w])
  case reserved
  then show ?thesis by simp
next
  case (failed e w1)
  then show ?thesis by simp
next
  case (page dst content w1)
  have "log (snd (md_to_html_file md rel_root out_root cfg dry built w))
      = log w1 @ [(INFO, ''write '' @ str_abs dst)]" for dry
    unfolding page(1) case_write_log by (rule write_text_log)
  then show ?thesis by simp
qed

lemma md_to_html_file_result:
  assumes "fst (md_to_html_file md rel_root out_root cfg False built w) = Inr r"
  shows "fst (md_to_html_file md rel_root out_root cfg True built w) = Inr r"
proof (cases rule: md_to_html_file_cases[of md rel_root out_root cfg built w])
  case reserved
  then show ?thesis using assms by simp
next
  case (failed e w1)
  then show ?thesis using assms by simp
next
  case (page dst content w1)
  from assms have "r = Some dst"
    unfolding page(1) by (auto split: prod.splits sum.splits)
  then show ?thesis unfolding page(1) by (simp add: write_text_dry)
qed

lemma build_index_dry_entries:
  "entries (snd (build_index src dst cfg True built w)) = entries w"
  by (cases "index_page cfg built w src") (simp_all add: build_index_def write_text_dry)

lemma build_index_log:
  "log (snd (build_index src dst cfg True built w)) = log (snd (build_index src dst cfg False built w))"
  by (cases "index_page cfg built w src") (simp_all add: build_index_def write_text_log)

lemma clean_domain_dry:
  "clean_domain root True w =
     (Inr (), w\<lparr>log := log w @ (if path_exists w root then remove_records (rglob w root ''.html'')
                                 else [(INFO, ''nothing to clean at '' @ str_abs root)])\<rparr>)"
  by (simp add: clean_domain_def clean_loop_dry logging_def)

lemma clean_loop_log:
  "clean_loop ps False w = (Inr (), w') \<Longrightarrow> log w' = log w @ remove_records ps"
proof (induction ps arbitrary: w)
  case Nil
  then show ?case by (simp add: remove_records_def)
next
  case (Cons p ps)
  define w1 where "w1 = logging INFO (''remove '' @ str_abs p) w"
  obtain r w2 where u: "unlink p w1 = (r, w2)" by (cases "unlink p w1")
  have l2: "log w2 = log w @ [(INFO, ''remove '' @ str_abs p)]"
    using unlink_log[of p w1] u by (simp add: w1_def)
  have "clean_loop ps False w2 = (Inr (), w')"
    using Cons.prems u unfolding clean_loop.simps Let_def w1_def[symmetric]
    by (auto split: sum.splits if_splits)
  from Cons.IH[OF this] l2 show ?case by (simp add: remove_records_def)
qed

lemma clean_domain_log:
  assumes "fst (clean_domain root False w) = Inr ()"
  shows "log (snd (clean_domain root True w)) = log (snd (clean_domain root False w))"
proof (cases "path_exists w root")
  case False
  then show ?thesis by (simp add: clean_domain_def)
next
  case True
  obtain w' where "clean_loop (rglob w root ''.html'') False w = (Inr (), w')"
    using assms True by (cases "clean_loop (rglob w root ''.html'') False w") (simp add: clean_domain_def)
  then show ?thesis using True clean_loop_log[of _ w w']
    by (simp add: clean_domain_def clean_loop_dry)
qed

lemma convert_loop_dry_entries:
  "entries (snd (convert_loop mds src dst cfg True built w)) = entries w"
proof (induction mds arbitrary: w)
  case Nil
  show ?case by simp
next
  case (Cons md mds)
  obtain r w1 where m: "md_to_html_file md src dst cfg True (built md) w = (r, w1)"
    by (cases "md_to_html_file md src dst cfg True (built md) w")
  have e1: "entries w1 = entries w" using md_to_html_file_dry_entries[of md src dst cfg "built md" w] m by simp
  show ?case using m e1 Cons.IH[of w1] by (cases r) simp_all
qed

lemma run_clean_dry_entries: "entries (snd (run_clean cfg domain True w)) = entries w"
  by (simp add: run_clean_def clean_domain_dry logging_def split: option.splits)

lemma convert_loop_dryD:
  "convert_loop mds src dst cfg True built w = (r, w') \<Longrightarrow> entries w' = entries w"
  using convert_loop_dry_entries[of mds src dst cfg built w] by simp

lemma build_index_dryD:
  "build_index src dst cfg True built w = (r, w') \<Longrightarrow> entries w' = entries w"
  using build_index_dry_entries[of src dst cfg built w] by simp

lemma clean_domain_dryD:
  "clean_domain root True w = (r, w') \<Longrightarrow> entries w' = entries w"
  by (simp add: clean_domain_dry) auto

lemma run_build_dry_entries:
  "entries (snd (run_build cfg domain clean_first True built w)) = entries w"
  unfolding run_build_def Let_def
  by (auto split: option.splits sum.splits prod.splits if_splits
           dest!: convert_loop_dryD build_index_dryD clean_domain_dryD)

text \<open>A reserved Markdown file has the suffix \<open>.md\<close>, so \<open>md_to_html_file\<close> returns at once.\<close>

lemma endswith_decomp: "endswith s t \<Longrightarrow> \<exists>a. s = a @ t"
  unfolding endswith_def by (metis append_take_drop_id)

lemma rfind_dot_md: "rfind_dot (a @ ''.md'') = Some (length a)"
  by (simp add: rfind_dot_def)

lemma reserved_md_suffix:
  assumes "startswith (path_name p) ''__''" "endswith (path_name p) ''.md''"
  shows "path_suffix p = ''.md''"
proof -
  obtain a where a: "path_name p = a @ ''.md''" using assms(2) endswith_decomp by blast
  have "a \<noteq> []"
  proof
    assume "a = []"
    with a assms(1) show False by (simp add: startswith_def)
  qed
  then show ?thesis by (simp add: path_suffix_def a rfind_dot_md)
qed

lemma reserved_not_rendered:
  assumes "startswith (path_name p) ''__''" "endswith (path_name p) ''.md''"
  shows "md_to_html_file p rel_root out_root cfg dry built w = (Inr None, w)"
  using assms reserved_md_suffix[OF assms] by (simp add: md_to_html_file_def)

text \<open>The body of the loop of \<open>build_index\<close> for one path: an error, no entry for a
  reserved file, or the entry.\<close>

definition index_entry :: "world \<Rightarrow> path \<Rightarrow> path \<Rightarrow> error + (string \<times> string) option" where
  "index_entry w root p =
     (if startswith (path_name p) ''__'' then Inr None
      else
        (case relative_to p root of
           Inl e \<Rightarrow> Inl e
         | Inr r \<Rightarrow>
        (case with_suffix r ''.html'' of
           Inl e \<Rightarrow> Inl e
         | Inr rel_html \<Rightarrow>
        (case md_title w p of
           Inl e \<Rightarrow> Inl e
         | Inr ti \<Rightarrow>
             Inr (Some (replace_char (CHR 0x5C) ''/'' (str_rel rel_html), title_or_stem ti p))))))"

lemma index_loop_Cons:
  "index_loop w root (p # ps) es =
     (case index_entry w root p of
        Inl e \<Rightarrow> Inl e
      | Inr None \<Rightarrow> index_loop w root ps es
      | Inr (Some x) \<Rightarrow> index_loop w root ps (es @ [x]))"
  by (simp add: index_entry_def split: sum.splits)

definition entry_list :: "world \<Rightarrow> path \<Rightarrow> path \<Rightarrow> (string \<times> string) list" where
  "entry_list w root p = (case index_entry w root p of Inr (Some x) \<Rightarrow> [x] | _ \<Rightarrow> [])"

lemma index_loop_result:
  assumes "\<forall>p \<in> set ps. index_entry w root p = Inl IsADirectoryError \<or> (\<exists>x. index_entry w root p = Inr x)"
  shows "index_loop w root ps es =
     (if \<exists>p \<in> set ps. index_entry w root p = Inl IsADirectoryError then Inl IsADirectoryError
      else Inr (es @ concat (map (entry_list w root) ps)))"
  using assms
proof (induction ps arbitrary: es)
  case Nil
  show ?case by simp
next
  case (Cons p ps)
  have ih: "\<And>es. index_loop w root ps es =
     (if \<exists>p \<in> set ps. index_entry w root p = Inl IsADirectoryError then Inl IsADirectoryError
      else Inr (es @ concat (map (entry_list w root) ps)))"
    using Cons.prems by (intro Cons.IH) simp
  have d: "index_entry w root p = Inl IsADirectoryError \<or> (\<exists>x. index_entry w root p = Inr x)"
    using Cons.prems by simp
  show ?case
  proof (cases "index_entry w root p")
    case (Inl e)
    with d have "index_entry w root p = Inl IsADirectoryError" by simp
    then show ?thesis by (simp add: index_loop_Cons del: index_loop.simps)
  next
    case (Inr x)
    show ?thesis
    proof (cases x)
      case None
      with Inr have el: "entry_list w root p = []" by (simp add: entry_list_def)
      from Inr None show ?thesis by (simp add: index_loop_Cons ih el del: index_loop.simps)
    next
      case (Some y)
      with Inr have el: "entry_list w root p = [y]" by (simp add: entry_list_def)
      from Inr Some show ?thesis by (simp add: index_loop_Cons ih el del: index_loop.simps)
    qed
  qed
qed

lemma rglob_member:
  "p \<in> set (rglob w root ext) \<longleftrightarrow>
     p \<in> fst ` set (entries w) \<and> is_under root p \<and> endswith (path_name p) ext"
  by (auto simp: rglob_def)

lemma node_at_entry:
  assumes "p \<in> fst ` set (entries w)"
  shows "\<exists>n. node_at w p = Some n"
proof (cases "p = []")
  case True
  then show ?thesis by (simp add: node_at_def)
next
  case False
  from assms have "map_of (entries w) p \<noteq> None" by (simp add: map_of_eq_None_iff)
  then show ?thesis using False by (auto simp: node_at_def)
qed

lemma rglob_entry_ok:
  assumes "p \<in> set (rglob w root ext)" "ext \<noteq> []"
  shows "index_entry w root p = Inl IsADirectoryError \<or> (\<exists>x. index_entry w root p = Inr x)"
proof -
  from assms(1) have mem: "p \<in> fst ` set (entries w)" and under: "is_under root p"
    and ends: "endswith (path_name p) ext" by (simp_all add: rglob_member)
  define r where "r = drop (length root) p"
  have rel: "relative_to p root = Inr r" using under by (simp add: relative_to_def is_under_def r_def)
  have rne: "r \<noteq> []" using under by (simp add: r_def is_under_def)
  have pne: "p \<noteq> []" using under by (auto simp: is_under_def)
  have "path_name r = path_name p" using rne pne under
    by (simp add: path_name_def r_def is_under_def)
  moreover have "path_name p \<noteq> []" using ends assms(2) by (auto simp: endswith_def)
  ultimately have "\<exists>rh. with_suffix r ''.html'' = Inr rh"
    by (simp add: with_suffix_def)
  then obtain rh where ws: "with_suffix r ''.html'' = Inr rh" by blast
  obtain n where n: "node_at w p = Some n" using node_at_entry[OF mem] by blast
  show ?thesis
  proof (cases n)
    case (File t)
    with n have "md_title w p = Inr (first_heading (splitlines t))"
      by (simp add: md_title_def read_text_def)
    then show ?thesis by (simp add: index_entry_def rel ws)
  next
    case Dir
    with n have "md_title w p = Inl IsADirectoryError"
      by (simp add: md_title_def read_text_def)
    then show ?thesis by (simp add: index_entry_def rel ws)
  qed
qed

lemma index_loop_rglob:
  "index_loop w root (rglob w root ''.md'') [] =
     (if \<exists>p \<in> set (rglob w root ''.md''). index_entry w root p = Inl IsADirectoryError
      then Inl IsADirectoryError
      else Inr (concat (map (entry_list w root) (rglob w root ''.md''))))"
  using index_loop_result[of "rglob w root ''.md''" w root "[]"] rglob_entry_ok[of _ w root "''.md''"]
  by simp

lemma permuted_node_at:
  assumes "mset (entries w) = mset (entries w')" "distinct (map fst (entries w))"
  shows "node_at w' = node_at w"
proof -
  have "mset (map fst (entries w')) = mset (map fst (entries w))" using assms(1) by (metis mset_map)
  then have d': "distinct (map fst (entries w'))" using assms(2) by (metis mset_eq_imp_distinct_iff)
  have "set (entries w') = set (entries w)" using assms(1) by (metis set_mset_mset)
  then have "map_of (entries w') = map_of (entries w)"
    using assms(2) d' by (simp add: map_of_inject_set)
  then show ?thesis by (auto simp: node_at_def fun_eq_iff)
qed

lemma md_title_cong: "node_at w' = node_at w \<Longrightarrow> md_title w' p = md_title w p"
  by (simp add: md_title_def read_text_def)

lemma index_entry_cong:
  assumes "node_at w' = node_at w"
  shows "index_entry w' root p = index_entry w root p"
  unfolding index_entry_def md_title_cong[OF assms] by (rule refl)

lemma permuted_rglob:
  assumes "mset (entries w) = mset (entries w')"
  shows "mset (rglob w' root ext) = mset (rglob w root ext)"
proof -
  have "mset (map fst (entries w')) = mset (map fst (entries w))" using assms by (metis mset_map)
  then show ?thesis by (simp add: rglob_def mset_filter del: mset_map)
qed

lemma mset_concat_map:
  "mset xs = mset ys \<Longrightarrow> mset (concat (map f xs)) = mset (concat (map f ys))"
proof -
  assume a: "mset xs = mset ys"
  have "\<And>zs. mset (concat (map f zs)) = (\<Sum>z\<in>#mset zs. mset (f z))"
    by (induct_tac zs) simp_all
  then show ?thesis using a by simp
qed

lemma permuted_index_entries:
  assumes "mset (entries w) = mset (entries w')" "distinct (map fst (entries w))"
  shows "index_entries w' root = index_entries w root"
proof -
  have na: "node_at w' = node_at w" using assms by (rule permuted_node_at)
  have ie: "index_entry w' root = index_entry w root"
    using index_entry_cong[OF na] by (simp add: fun_eq_iff)
  have el: "entry_list w' root = entry_list w root" by (simp add: entry_list_def ie fun_eq_iff)
  have ms: "mset (rglob w' root ''.md'') = mset (rglob w root ''.md'')"
    using assms(1) by (rule permuted_rglob)
  then have st: "set (rglob w' root ''.md'') = set (rglob w root ''.md'')" by (metis set_mset_mset)
  have "mset (concat (map (entry_list w root) (rglob w' root ''.md'')))
      = mset (concat (map (entry_list w root) (rglob w root ''.md'')))"
    using ms by (rule mset_concat_map)
  then have "sort (concat (map (entry_list w root) (rglob w' root ''.md'')))
      = sort (concat (map (entry_list w root) (rglob w root ''.md'')))"
    by (intro properties_for_sort) simp_all
  then show ?thesis
    by (simp add: index_entries_def index_loop_rglob ie el st)
qed

lemma permuted_index_page:
  assumes "mset (entries w) = mset (entries w')" "distinct (map fst (entries w))"
  shows "index_page cfg built w' root = index_page cfg built w root"
proof -
  have na: "node_at w' = node_at w" using assms by (rule permuted_node_at)
  have pe: "path_exists w' (root @ [''__index__.md'']) = path_exists w (root @ [''__index__.md''])"
    by (simp add: path_exists_def na)
  have rt: "read_text w' (root @ [''__index__.md'']) = read_text w (root @ [''__index__.md''])"
    by (simp add: read_text_def na)
  show ?thesis
    unfolding index_page_def pe rt permuted_index_entries[OF assms] by (rule refl)
qed

lemma sorted_map_fst: "sorted (es :: (string \<times> string) list) \<Longrightarrow> sorted (map fst es)"
  by (induction es) (auto simp: less_eq_prod_def)

lemma index_entries_sorted:
  assumes "index_entries w root = Inr es"
  shows "sorted es" and "sorted (map fst es)"
    and "\<exists>us. index_loop w root (rglob w root ''.md'') [] = Inr us \<and> mset es = mset us"
proof -
  from assms obtain us where us: "index_loop w root (rglob w root ''.md'') [] = Inr us"
    and es: "es = sort us"
    by (auto simp: index_entries_def split: sum.splits)
  show "sorted es" by (simp add: es)
  then show "sorted (map fst es)" by (rule sorted_map_fst)
  show "\<exists>us. index_loop w root (rglob w root ''.md'') [] = Inr us \<and> mset es = mset us"
    using us es by simp
qed

text \<open>The entries of the index do not change when a reserved file is removed.\<close>

lemma reserved_entry_none: "startswith (path_name p) ''__'' \<Longrightarrow> index_entry w root p = Inr None"
  by (simp add: index_entry_def)

lemma removed_node_at:
  "q \<noteq> p \<Longrightarrow> node_at (w\<lparr>entries := filter (\<lambda>e. fst e \<noteq> p) (entries w)\<rparr>) q = node_at w q"
  by (simp add: node_at_def map_of_filter_other)

lemma removed_index_entry:
  assumes "startswith (path_name p) ''__''"
  shows "index_entry (w\<lparr>entries := filter (\<lambda>e. fst e \<noteq> p) (entries w)\<rparr>) root q = index_entry w root q"
proof (cases "q = p")
  case True
  then show ?thesis using assms by (simp add: reserved_entry_none)
next
  case False
  have mt: "md_title (w\<lparr>entries := filter (\<lambda>e. fst e \<noteq> p) (entries w)\<rparr>) q = md_title w q"
    by (simp add: md_title_def read_text_def removed_node_at[OF False])
  show ?thesis unfolding index_entry_def mt by (rule refl)
qed

lemma removed_rglob:
  "rglob (w\<lparr>entries := filter (\<lambda>e. fst e \<noteq> p) (entries w)\<rparr>) root ext
   = filter (\<lambda>q. q \<noteq> p) (rglob w root ext)"
  by (simp add: rglob_def filter_map comp_def conj_commute)

lemma concat_skip:
  "f p = [] \<Longrightarrow> concat (map f (filter (\<lambda>q. q \<noteq> p) ps)) = concat (map f ps)"
  by (induction ps) auto

lemma reserved_not_listed:
  assumes "startswith (path_name p) ''__''"
  shows "index_entries (w\<lparr>entries := filter (\<lambda>e. fst e \<noteq> p) (entries w)\<rparr>) root = index_entries w root"
proof -
  let ?w' = "w\<lparr>entries := filter (\<lambda>e. fst e \<noteq> p) (entries w)\<rparr>"
  have ie: "index_entry ?w' root = index_entry w root"
    using removed_index_entry[OF assms] by (simp add: fun_eq_iff)
  have el: "entry_list ?w' root = entry_list w root" by (simp add: entry_list_def ie fun_eq_iff)
  have elp: "entry_list w root p = []"
    by (simp add: entry_list_def reserved_entry_none[OF assms])
  have rg: "rglob ?w' root ''.md'' = filter (\<lambda>q. q \<noteq> p) (rglob w root ''.md'')"
    by (rule removed_rglob)
  have err: "(\<exists>q \<in> set (filter (\<lambda>q. q \<noteq> p) (rglob w root ''.md'')). index_entry w root q = Inl IsADirectoryError)
      = (\<exists>q \<in> set (rglob w root ''.md''). index_entry w root q = Inl IsADirectoryError)"
    using reserved_entry_none[OF assms, of w root] by auto
  have "index_loop ?w' root (rglob ?w' root ''.md'') [] =
      index_loop w root (rglob w root ''.md'') []"
    unfolding index_loop_rglob[of ?w'] index_loop_rglob[of w] ie el
    unfolding rg err concat_skip[of "entry_list w root" p, OF elp] by (rule refl)
  then show ?thesis unfolding index_entries_def by simp
qed

text \<open>The page of the index: the body, from \<open>__index__.md\<close> where there is one, and the
  listing of the sorted entries; \<open>build_index\<close> writes that page.\<close>

definition index_body :: "world \<Rightarrow> path \<Rightarrow> error + string" where
  "index_body w domain_src_root =
     (if path_exists w (domain_src_root @ [''__index__.md''])
      then (case read_text w (domain_src_root @ [''__index__.md'']) of
              Inl e \<Rightarrow> Inl e
            | Inr t \<Rightarrow> markdown_to_html t)
      else Inr ''<h2>Index</h2>'')"

lemma index_page_parts:
  "index_page cfg built w root =
     (case index_body w root of
        Inl e \<Rightarrow> Inl e
      | Inr body \<Rightarrow>
          (case index_entries w root of
             Inl e \<Rightarrow> Inl e
           | Inr es \<Rightarrow>
               Inr (render_page cfg built (site_title cfg @ index_title_suffix)
                      (body @ [CHR 0x0A] @ str_join [CHR 0x0A] (index_listing es))
                      ''index.html'')))"
  unfolding index_page_def index_body_def by (rule refl)

lemma index_page_listing:
  assumes "index_page cfg built w root = Inr page"
  shows "\<exists>body es. index_body w root = Inr body \<and> index_entries w root = Inr es
      \<and> sorted (map fst es)
      \<and> page = render_page cfg built (site_title cfg @ index_title_suffix)
                 (body @ [CHR 0x0A] @ str_join [CHR 0x0A] (index_listing es)) ''index.html''"
proof -
  from assms obtain body where b: "index_body w root = Inr body"
    unfolding index_page_parts by (cases "index_body w root") simp_all
  from assms obtain es where es: "index_entries w root = Inr es"
    unfolding index_page_parts b by (cases "index_entries w root") simp_all
  from assms have "page = render_page cfg built (site_title cfg @ index_title_suffix)
                 (body @ [CHR 0x0A] @ str_join [CHR 0x0A] (index_listing es)) ''index.html''"
    unfolding index_page_parts b es by simp
  with b es index_entries_sorted(2)[OF es] show ?thesis by blast
qed

text \<open>What a path names after an entry is appended or the entries of a path are replaced.\<close>

lemma node_at_appended:
  "node_at (w\<lparr>entries := entries w @ [(q, n)]\<rparr>) p =
     (case node_at w p of None \<Rightarrow> if p = q then Some n else None | Some m \<Rightarrow> Some m)"
  by (simp add: node_at_def map_add_def split: option.splits)

lemma map_of_replaced:
  "map_of (map (\<lambda>e. if fst e = p then (p, v) else e) es) q =
     (if q = p then (case map_of es p of None \<Rightarrow> None | Some u \<Rightarrow> Some v) else map_of es q)"
  by (induction es) (auto split: option.splits)

lemma node_at_replaced:
  "node_at (w\<lparr>entries := map (\<lambda>e. if fst e = p then (p, v) else e) (entries w)\<rparr>) q =
     (if q = p \<and> p \<noteq> [] then (case node_at w p of None \<Rightarrow> None | Some u \<Rightarrow> Some v) else node_at w q)"
  by (simp add: node_at_def map_of_replaced)

lemma write_file_written:
  assumes "write_file p t w = (Inr (), w')"
  shows "node_at w' p = Some (File t)"
proof (cases "node_at w p")
  case None
  with assms have "w' = w\<lparr>entries := entries w @ [(p, File t)]\<rparr>"
    by (auto simp: write_file_def split: option.splits node.splits)
  then show ?thesis using None by (simp add: node_at_appended)
next
  case (Some n)
  with assms obtain old where old: "node_at w p = Some (File old)"
    by (cases n) (auto simp: write_file_def)
  then have pne: "p \<noteq> []" by (auto simp: node_at_def)
  from assms old have "w' = w\<lparr>entries := map (\<lambda>e. if fst e = p then (p, File t) else e) (entries w)\<rparr>"
    by (simp add: write_file_def)
  then show ?thesis using old pne by (simp add: node_at_replaced)
qed

lemma write_text_written:
  assumes "write_text p t False w = (Inr (), w')"
  shows "node_at w' p = Some (File t)"
proof -
  let ?w1 = "logging INFO (''write '' @ str_abs p) w"
  obtain r w2 where m: "mkdir_parents (butlast p) ?w1 = (r, w2)"
    by (cases "mkdir_parents (butlast p) ?w1")
  from assms have "write_file p t w2 = (Inr (), w')"
    unfolding write_text_def Let_def m by (cases r) simp_all
  then show ?thesis by (rule write_file_written)
qed

lemma build_index_written:
  assumes "build_index src dst cfg False built w = (Inr (), w')"
  shows "\<exists>page. index_page cfg built w src = Inr page
      \<and> read_text w' (dst @ [''index.html'']) = Inr page"
proof -
  from assms obtain page where p: "index_page cfg built w src = Inr page"
    by (cases "index_page cfg built w src") (simp_all add: build_index_def)
  from assms have "write_text (dst @ [''index.html'']) page False w = (Inr (), w')"
    by (simp add: build_index_def p)
  then have "node_at w' (dst @ [''index.html'']) = Some (File page)" by (rule write_text_written)
  then show ?thesis using p by (simp add: read_text_def)
qed

text \<open>The outcome of a write depends on what the paths name, not on the order of the
  entries.\<close>

lemma mkdir_each_cong:
  assumes "node_at w' = node_at w"
  shows "fst (mkdir_each qs d w') = fst (mkdir_each qs d w)
       \<and> node_at (snd (mkdir_each qs d w')) = node_at (snd (mkdir_each qs d w))"
  using assms
proof (induction qs arbitrary: w w')
  case Nil
  then show ?case by simp
next
  case (Cons q qs)
  have q: "node_at w' q = node_at w q" using Cons.prems by simp
  show ?case
  proof (cases "node_at w q")
    case None
    have "node_at (w'\<lparr>entries := entries w' @ [(q, Dir)]\<rparr>) = node_at (w\<lparr>entries := entries w @ [(q, Dir)]\<rparr>)"
      by (simp add: fun_eq_iff node_at_appended Cons.prems)
    from Cons.IH[OF this] show ?thesis using None q by simp
  next
    case (Some n)
    show ?thesis
    proof (cases n)
      case (File t)
      then show ?thesis using Some q Cons.prems by simp
    next
      case Dir
      then show ?thesis using Some q Cons.IH[OF Cons.prems] by simp
    qed
  qed
qed

lemma write_file_cong:
  assumes "node_at w' = node_at w"
  shows "fst (write_file p t w') = fst (write_file p t w)
       \<and> node_at (snd (write_file p t w')) = node_at (snd (write_file p t w))"
proof -
  have a: "node_at w' q = node_at w q" for q using assms by simp
  show ?thesis
    unfolding write_file_def a
    by (auto simp: fun_eq_iff node_at_appended node_at_replaced a assms split: option.splits node.splits)
qed

lemma logging_node_at: "node_at (logging lv m w) = node_at w"
  by (simp add: fun_eq_iff)

lemma write_text_cong:
  assumes "node_at w' = node_at w"
  shows "fst (write_text p t dry w') = fst (write_text p t dry w)
       \<and> node_at (snd (write_text p t dry w')) = node_at (snd (write_text p t dry w))"
proof (cases dry)
  case True
  then show ?thesis using assms by (simp add: write_text_dry logging_node_at)
next
  case False
  let ?v' = "logging INFO (''write '' @ str_abs p) w'" and ?v = "logging INFO (''write '' @ str_abs p) w"
  have n1: "node_at ?v' = node_at ?v" using assms by (simp add: logging_node_at)
  obtain r' u' where m': "mkdir_parents (butlast p) ?v' = (r', u')" by (cases "mkdir_parents (butlast p) ?v'")
  obtain r u where m: "mkdir_parents (butlast p) ?v = (r, u)" by (cases "mkdir_parents (butlast p) ?v")
  from mkdir_each_cong[OF n1, of "map (\<lambda>k. take k (butlast p)) [1..<Suc (length (butlast p))]" "butlast p"]
  have rr: "r' = r" and nu: "node_at u' = node_at u"
    using m m' by (simp_all add: mkdir_parents_def)
  show ?thesis
  proof (cases r)
    case (Inl e)
    then show ?thesis using False rr nu unfolding write_text_def Let_def m m' by simp
  next
    case (Inr x)
    then show ?thesis using False rr write_file_cong[OF nu, of p t]
      unfolding write_text_def Let_def m m' by simp
  qed
qed

lemma permuted_build_index:
  assumes "mset (entries w) = mset (entries w')" "distinct (map fst (entries w))"
  shows "fst (build_index src dst cfg dry built w') = fst (build_index src dst cfg dry built w)"
    and "node_at (snd (build_index src dst cfg dry built w')) = node_at (snd (build_index src dst cfg dry built w))"
proof -
  have na: "node_at w' = node_at w" using assms by (rule permuted_node_at)
  have ip: "index_page cfg built w' src = index_page cfg built w src"
    using assms by (rule permuted_index_page)
  show "fst (build_index src dst cfg dry built w') = fst (build_index src dst cfg dry built w)"
    unfolding build_index_def ip
    by (cases "index_page cfg built w src") (simp_all add: write_text_cong[OF na])
  show "node_at (snd (build_index src dst cfg dry built w')) = node_at (snd (build_index src dst cfg dry built w))"
    unfolding build_index_def ip
    by (cases "index_page cfg built w src") (simp_all add: write_text_cong[OF na] na)
qed

section \<open>Dry and real runs compared\<close>

text \<open>A real run changes the file system in three ways: it removes files whose name ends in
  \<open>.html\<close>, it creates directories, and it writes files whose name ends in \<open>.html\<close>. What a
  build reads are the entries whose name ends in \<open>.md\<close> (\<open>md_view\<close>). So a real run leaves
  these entries as they are, but for directories of such a name that it creates itself,
  wherever source and destination lie. The world \<open>wd\<close> of a dry run and the world \<open>wr\<close> of a
  real run are related by \<open>tracks\<close> when they agree on the log and the \<open>.md\<close> entries of \<open>wr\<close>
  are those of \<open>wd\<close> followed by such directories.\<close>

definition md_named :: "path \<Rightarrow> bool" where
  "md_named p = endswith (path_name p) ''.md''"

definition html_named :: "path \<Rightarrow> bool" where
  "html_named p = endswith (path_name p) ''.html''"

definition md_view :: "world \<Rightarrow> (path \<times> node) list" where
  "md_view w = filter (\<lambda>e. md_named (fst e)) (entries w)"

definition tracks :: "world \<Rightarrow> world \<Rightarrow> bool" where
  "tracks wd wr =
     (log wd = log wr
      \<and> (\<exists>extra. md_view wr = md_view wd @ extra
            \<and> (\<forall>e \<in> set extra. snd e = Dir \<and> fst e \<notin> fst ` set (md_view wd))))"

lemma endswith_last: "endswith s t \<Longrightarrow> t \<noteq> [] \<Longrightarrow> last s = last t"
  unfolding endswith_def by (metis last_drop length_greater_0_conv diff_less append_take_drop_id last_appendR)

lemma html_not_md: "html_named p \<Longrightarrow> \<not> md_named p"
proof
  assume "html_named p" "md_named p"
  then have "last (path_name p) = last ''.html''" "last (path_name p) = last ''.md''"
    unfolding html_named_def md_named_def by (auto dest!: endswith_last)
  then show False by simp
qed

lemma md_named_nonempty: "md_named p \<Longrightarrow> p \<noteq> []"
  by (auto simp: md_named_def path_name_def endswith_def)

lemma map_of_filter_key:
  "map_of (filter (\<lambda>e. P (fst e)) es) k = (if P k then map_of es k else None)"
  by (induction es) auto

lemma md_view_node:
  "md_named p \<Longrightarrow> map_of (md_view w) p = node_at w p"
  by (simp add: md_view_def map_of_filter_key node_at_def md_named_nonempty)

lemma md_view_logging [simp]: "md_view (logging lv m w) = md_view w"
  by (simp add: md_view_def)

lemma md_view_log_update [simp]: "md_view (w\<lparr>log := l\<rparr>) = md_view w"
  by (simp add: md_view_def)

lemma tracks_refl: "tracks w w"
  by (simp add: tracks_def)

lemma tracks_same_view: "log wd = log wr \<Longrightarrow> md_view wr = md_view wd \<Longrightarrow> tracks wd wr"
  by (simp add: tracks_def)

lemma tracks_log: "tracks wd wr \<Longrightarrow> log wd = log wr"
  by (simp add: tracks_def)

lemma tracks_logging:
  "tracks wd wr \<Longrightarrow> tracks (logging lv m wd) (logging lv m wr)"
  by (simp add: tracks_def)

lemma tracks_node:
  assumes "tracks wd wr" "md_named p" "node_at wd p \<noteq> None"
  shows "node_at wr p = node_at wd p"
proof -
  from assms(1) obtain extra where e: "md_view wr = md_view wd @ extra" by (auto simp: tracks_def)
  from assms(2,3) obtain n where n: "map_of (md_view wd) p = Some n"
    by (auto simp: md_view_node)
  have "map_of (md_view wr) p = Some n" unfolding e using n by (simp add: map_add_def)
  with n show ?thesis using assms(2) by (simp add: md_view_node)
qed

lemma tracks_node_absent:
  assumes "tracks wd wr" "md_named p" "node_at wd p = None"
  shows "node_at wr p = None \<or> node_at wr p = Some Dir"
proof -
  from assms(1) obtain extra where e: "md_view wr = md_view wd @ extra"
    and x: "\<forall>e \<in> set extra. snd e = Dir" by (auto simp: tracks_def)
  have n: "map_of (md_view wd) p = None" using assms(2,3) by (simp add: md_view_node)
  have "map_of (md_view wr) p = map_of extra p" unfolding e using n by (simp add: map_add_def)
  moreover have "map_of extra p = None \<or> map_of extra p = Some Dir"
  proof (cases "map_of extra p")
    case None
    then show ?thesis by simp
  next
    case (Some m)
    then have "(p, m) \<in> set extra" by (rule map_of_SomeD)
    with x have "m = Dir" by auto
    with Some show ?thesis by simp
  qed
  ultimately show ?thesis using assms(2) by (simp add: md_view_node)
qed

lemma rglob_md_view:
  "rglob w root ''.md'' = filter (is_under root) (map fst (md_view w))"
  by (simp add: rglob_def md_view_def md_named_def filter_map comp_def conj_commute)

lemma tracks_rglob_subset:
  assumes "tracks wd wr"
  shows "set (rglob wd root ''.md'') \<subseteq> set (rglob wr root ''.md'')"
proof -
  from assms obtain extra where e: "md_view wr = md_view wd @ extra" by (auto simp: tracks_def)
  show ?thesis unfolding rglob_md_view e by auto
qed

lemma rglob_md_named: "p \<in> set (rglob w root ''.md'') \<Longrightarrow> md_named p \<and> node_at w p \<noteq> None"
  using node_at_entry[of p w] by (auto simp: rglob_member md_named_def)

text \<open>The operations on files keep the relation, whether they succeed or fail.\<close>

lemma unlink_md_view:
  assumes "html_named p"
  shows "md_view (snd (unlink p w)) = md_view w"
proof -
  have "filter (\<lambda>e. md_named (fst e)) (filter (\<lambda>e. fst e \<noteq> p) es)
      = filter (\<lambda>e. md_named (fst e)) es" for es :: "(path \<times> node) list"
    using html_not_md[OF assms] by (induction es) auto
  then show ?thesis
    by (simp add: unlink_def md_view_def split: option.splits node.splits)
qed

lemma clean_loop_md_view:
  assumes "\<forall>p \<in> set ps. html_named p"
  shows "md_view (snd (clean_loop ps False w)) = md_view w"
  using assms
proof (induction ps arbitrary: w)
  case Nil
  show ?case by simp
next
  case (Cons p ps)
  define w1 where "w1 = logging INFO (''remove '' @ str_abs p) w"
  obtain r w2 where u: "unlink p w1 = (r, w2)" by (cases "unlink p w1")
  have v2: "md_view w2 = md_view w"
    using unlink_md_view[of p w1] Cons.prems u by (simp add: w1_def)
  have ih: "md_view (snd (clean_loop ps False w2)) = md_view w2"
    using Cons.prems by (intro Cons.IH) simp
  have "clean_loop (p # ps) False w =
      (case r of Inl e \<Rightarrow> if e = FileNotFoundError then clean_loop ps False w2 else (Inl e, w2)
               | Inr x \<Rightarrow> clean_loop ps False w2)"
    unfolding clean_loop.simps Let_def w1_def[symmetric] u by (cases r) simp_all
  then show ?case using ih v2 by (cases r) auto
qed

lemma clean_loop_log_prefix:
  "prefix (log (snd (clean_loop ps False w))) (log w @ remove_records ps)"
proof (induction ps arbitrary: w)
  case Nil
  show ?case by (simp add: remove_records_def)
next
  case (Cons p ps)
  define w1 where "w1 = logging INFO (''remove '' @ str_abs p) w"
  obtain r w2 where u: "unlink p w1 = (r, w2)" by (cases "unlink p w1")
  have l2: "log w2 = log w @ [(INFO, ''remove '' @ str_abs p)]"
    using unlink_log[of p w1] u by (simp add: w1_def)
  have rr: "remove_records (p # ps) = (INFO, ''remove '' @ str_abs p) # remove_records ps"
    by (simp add: remove_records_def)
  have ih: "prefix (log (snd (clean_loop ps False w2))) (log w2 @ remove_records ps)"
    by (rule Cons.IH)
  have e: "clean_loop (p # ps) False w =
      (case r of Inl e \<Rightarrow> if e = FileNotFoundError then clean_loop ps False w2 else (Inl e, w2)
               | Inr x \<Rightarrow> clean_loop ps False w2)"
    unfolding clean_loop.simps Let_def w1_def[symmetric] u by (cases r) simp_all
  have stop: "prefix (log w2) (log w @ remove_records (p # ps))"
    unfolding l2 rr by simp
  have go: "prefix (log (snd (clean_loop ps False w2))) (log w @ remove_records (p # ps))"
    using ih unfolding l2 rr by simp
  show ?case unfolding e using stop go by (cases r) auto
qed

lemma clean_domain_md_view:
  "md_view (snd (clean_domain root False w)) = md_view w"
proof (cases "path_exists w root")
  case False
  then show ?thesis by (simp add: clean_domain_def)
next
  case True
  have "\<forall>p \<in> set (rglob w root ''.html''). html_named p"
    by (simp add: rglob_member html_named_def)
  from clean_loop_md_view[OF this] True show ?thesis by (simp add: clean_domain_def)
qed

lemma clean_domain_log_prefix:
  "prefix (log (snd (clean_domain root False w))) (log (snd (clean_domain root True w)))"
proof (cases "path_exists w root")
  case False
  then show ?thesis by (simp add: clean_domain_def)
next
  case True
  then show ?thesis
    using clean_loop_log_prefix[of "rglob w root ''.html''" w]
    by (simp add: clean_domain_def clean_loop_dry)
qed

text \<open>Creating directories appends entries for paths that had none.\<close>

lemma mkdir_each_appends:
  "\<exists>ex. entries (snd (mkdir_each qs d w)) = entries w @ ex
      \<and> (\<forall>e \<in> set ex. snd e = Dir \<and> fst e \<notin> fst ` set (entries w))"
proof (induction qs arbitrary: w)
  case Nil
  show ?case by simp
next
  case (Cons q qs)
  show ?case
  proof (cases "node_at w q")
    case None
    then have qn: "q \<notin> fst ` set (entries w)"
      by (auto simp: node_at_def map_of_eq_None_iff split: if_splits)
    let ?w = "w\<lparr>entries := entries w @ [(q, Dir)]\<rparr>"
    from Cons.IH[of ?w] obtain ex where
      ex: "entries (snd (mkdir_each qs d ?w)) = entries ?w @ ex"
      and d: "\<forall>e \<in> set ex. snd e = Dir \<and> fst e \<notin> fst ` set (entries ?w)" by blast
    have "entries (snd (mkdir_each (q # qs) d w)) = entries w @ ((q, Dir) # ex)"
      using None ex by simp
    moreover have "\<forall>e \<in> set ((q, Dir) # ex). snd e = Dir \<and> fst e \<notin> fst ` set (entries w)"
      using d qn by auto
    ultimately show ?thesis by blast
  next
    case (Some n)
    show ?thesis
    proof (cases n)
      case (File t)
      with Some show ?thesis by simp
    next
      case Dir
      with Some Cons.IH[of w] show ?thesis by simp
    qed
  qed
qed

lemma write_file_md_view:
  assumes "html_named p"
  shows "md_view (snd (write_file p t w)) = md_view w"
proof -
  have np: "\<not> md_named p" using assms by (rule html_not_md)
  have "filter (\<lambda>e. md_named (fst e)) (map (\<lambda>e. if fst e = p then (p, v) else e) es)
      = filter (\<lambda>e. md_named (fst e)) es" for es :: "(path \<times> node) list" and v
    using np by (induction es) auto
  then show ?thesis
    using np by (simp add: write_file_def md_view_def split: option.splits node.splits)
qed

lemma md_view_keys: "fst ` set (md_view w) \<subseteq> fst ` set (entries w)"
  by (auto simp: md_view_def)

lemma write_text_tracks:
  assumes "tracks wd wr" "html_named p"
  shows "tracks (snd (write_text p t True wd)) (snd (write_text p t False wr))"
proof -
  let ?r1 = "logging INFO (''write '' @ str_abs p) wr"
  from assms(1) obtain extra where l: "log wd = log wr"
    and e: "md_view wr = md_view wd @ extra"
    and x: "\<forall>e \<in> set extra. snd e = Dir \<and> fst e \<notin> fst ` set (md_view wd)"
    by (auto simp: tracks_def)
  obtain r w2 where m: "mkdir_parents (butlast p) ?r1 = (r, w2)"
    by (cases "mkdir_parents (butlast p) ?r1")
  from mkdir_each_appends[of "map (\<lambda>k. take k (butlast p)) [1..<Suc (length (butlast p))]" "butlast p" ?r1]
  obtain ex where ex: "entries w2 = entries wr @ ex"
    and d: "\<forall>e \<in> set ex. snd e = Dir \<and> fst e \<notin> fst ` set (entries wr)"
    using m by (auto simp: mkdir_parents_def)
  have l2: "log w2 = log wr @ [(INFO, ''write '' @ str_abs p)]"
    using mkdir_parents_log[of "butlast p" ?r1] m by simp
  define ex' where "ex' = filter (\<lambda>e. md_named (fst e)) ex"
  have v2: "md_view w2 = md_view wd @ (extra @ ex')"
    using ex e by (simp add: md_view_def ex'_def)
  have keys: "fst ` set (md_view wd) \<subseteq> fst ` set (entries wr)"
  proof -
    have "fst ` set (md_view wd) \<subseteq> fst ` set (md_view wr)" unfolding e by auto
    with md_view_keys[of wr] show ?thesis by blast
  qed
  have x1: "\<forall>e \<in> set ex'. snd e = Dir \<and> fst e \<notin> fst ` set (md_view wd)"
  proof
    fix e assume "e \<in> set ex'"
    then have "e \<in> set ex" by (simp add: ex'_def)
    with d have "snd e = Dir" "fst e \<notin> fst ` set (entries wr)" by blast+
    with keys show "snd e = Dir \<and> fst e \<notin> fst ` set (md_view wd)" by blast
  qed
  have x2: "\<forall>e \<in> set (extra @ ex'). snd e = Dir \<and> fst e \<notin> fst ` set (md_view wd)"
    using x x1 by (simp add: ball_Un)
  have t2: "tracks (logging INFO (''write '' @ str_abs p) wd) w2"
    unfolding tracks_def using l l2 v2 x2 by auto
  have t3: "tracks (logging INFO (''write '' @ str_abs p) wd) (snd (write_file p t w2))"
    using t2 write_file_md_view[OF assms(2), of t w2] write_file_log[of p t w2]
    by (simp add: tracks_def)
  have "snd (write_text p t False wr) = (case r of Inl e \<Rightarrow> w2 | Inr u \<Rightarrow> snd (write_file p t w2))"
    unfolding write_text_def Let_def using m by (cases r) simp_all
  then show ?thesis using t2 t3 by (cases r) (simp_all add: write_text_dry)
qed

lemma write_text_result_dry:
  "fst (write_text p t True w) = Inr ()"
  by (simp add: write_text_dry)

text \<open>What \<open>md_to_html_file\<close> decides for a file, before anything is written: an error, nothing
  for a reserved file, or the destination and the page; and the records logged on the way.
  The dry-run flag plays no part in it.\<close>

definition convert_plan ::
  "path \<Rightarrow> path \<Rightarrow> path \<Rightarrow> config \<Rightarrow> string \<Rightarrow> world
     \<Rightarrow> (error + (path \<times> string) option) \<times> (level \<times> string) list" where
  "convert_plan md_path rel_root out_root cfg built w =
     (if startswith (path_name md_path) ''__'' \<and> path_suffix md_path = ''.md'' then (Inr None, [])
      else
        (case relative_to md_path rel_root of
           Inl e \<Rightarrow> (Inl e, [])
         | Inr r \<Rightarrow>
        (case with_suffix r ''.html'' of
           Inl e \<Rightarrow> (Inl e, [])
         | Inr rel \<Rightarrow>
        (let dst = out_root @ rel;
             recs = [(DEBUG, ''convert '' @ str_abs md_path @ '' -> '' @ str_abs dst)] in
         case read_text w md_path of
           Inl e \<Rightarrow> (Inl e, recs)
         | Inr t \<Rightarrow>
        (case markdown_to_html t of
           Inl e \<Rightarrow> (Inl e, recs)
         | Inr html_body \<Rightarrow>
        (case md_title w md_path of
           Inl e \<Rightarrow> (Inl e, recs)
         | Inr ti \<Rightarrow>
             (Inr (Some (dst, render_page cfg built (title_or_stem ti md_path) html_body (str_rel rel))),
              recs)))))))"

definition carry_out ::
  "(error + (path \<times> string) option) \<Rightarrow> bool \<Rightarrow> world \<Rightarrow> (error + path option) \<times> world" where
  "carry_out plan dry_run w =
     (case plan of
        Inl e \<Rightarrow> (Inl e, w)
      | Inr None \<Rightarrow> (Inr None, w)
      | Inr (Some (dst, page)) \<Rightarrow>
          (case write_text dst page dry_run w of
             (Inl e, w2) \<Rightarrow> (Inl e, w2)
           | (Inr u, w2) \<Rightarrow> (Inr (Some dst), w2)))"

lemma read_text_log_update [simp]: "read_text (w\<lparr>log := l\<rparr>) p = read_text w p"
  by (simp add: read_text_def node_at_def)

lemma md_title_log_update [simp]: "md_title (w\<lparr>log := l\<rparr>) p = md_title w p"
  by (simp add: md_title_def)

lemma md_to_html_file_plan:
  "md_to_html_file md rel_root out_root cfg dry built w =
     carry_out (fst (convert_plan md rel_root out_root cfg built w)) dry
       (w\<lparr>log := log w @ snd (convert_plan md rel_root out_root cfg built w)\<rparr>)"
proof (cases "startswith (path_name md) ''__'' \<and> path_suffix md = ''.md''")
  case True
  then show ?thesis by (simp add: md_to_html_file_def convert_plan_def carry_out_def)
next
  case False
  then have nr: "(startswith (path_name md) ''__'' \<and> path_suffix md = ''.md'') = False" by simp
  show ?thesis
  proof (cases "relative_to md rel_root")
    case (Inl e)
    show ?thesis by (simp add: md_to_html_file_def convert_plan_def nr Inl carry_out_def)
  next
    case r: (Inr r)
    show ?thesis
    proof (cases "with_suffix r ''.html''")
      case (Inl e)
      show ?thesis by (simp add: md_to_html_file_def convert_plan_def nr r Inl carry_out_def)
    next
      case rel: (Inr rel)
      note d = md_to_html_file_def convert_plan_def nr r rel Let_def logging_def carry_out_def
      show ?thesis
      proof (cases "read_text w md")
        case (Inl e)
        show ?thesis by (simp add: d Inl)
      next
        case t: (Inr t)
        show ?thesis
        proof (cases "markdown_to_html t")
          case (Inl e)
          show ?thesis by (simp add: d t Inl)
        next
          case h: (Inr html_body)
          show ?thesis
          proof (cases "md_title w md")
            case (Inl e)
            show ?thesis by (simp add: d t h Inl)
          next
            case ti: (Inr ti)
            show ?thesis by (simp add: d t h ti)
          qed
        qed
      qed
    qed
  qed
qed

lemma convert_plan_cong:
  assumes "node_at w' md = node_at w md"
  shows "convert_plan md rel_root out_root cfg built w' = convert_plan md rel_root out_root cfg built w"
proof -
  have r: "read_text w' md = read_text w md" using assms by (simp add: read_text_def)
  then have t: "md_title w' md = md_title w md" by (simp add: md_title_def)
  show ?thesis unfolding convert_plan_def r t by (rule refl)
qed

lemma with_suffix_named:
  assumes "with_suffix r s = Inr rel"
  shows "rel \<noteq> [] \<and> endswith (path_name rel) s"
proof -
  from assms obtain n where "rel = butlast r @ [n @ s]"
    by (auto simp: with_suffix_def split: if_splits)
  then show ?thesis by (simp add: path_name_def endswith_def)
qed

lemma convert_plan_html:
  assumes "fst (convert_plan md rel_root out_root cfg built w) = Inr (Some (dst, page))"
  shows "html_named dst"
proof -
  from assms obtain r rel where "with_suffix r ''.html'' = Inr rel" and dst: "dst = out_root @ rel"
    unfolding convert_plan_def Let_def
    by (auto split: if_splits sum.splits)
  from with_suffix_named[OF this(1)] have "rel \<noteq> []" "endswith (path_name rel) ''.html''"
    by simp_all
  moreover from this(1) have "path_name (out_root @ rel) = path_name rel"
    by (simp add: path_name_def)
  ultimately show ?thesis by (simp add: html_named_def dst)
qed

lemma md_to_html_file_sim:
  assumes "tracks wd wr" "md_named md" "node_at wd md \<noteq> None"
  shows "tracks (snd (md_to_html_file md rel_root out_root cfg True built wd))
                (snd (md_to_html_file md rel_root out_root cfg False built wr))"
    and "fst (md_to_html_file md rel_root out_root cfg False built wr) = Inr x \<Longrightarrow>
         fst (md_to_html_file md rel_root out_root cfg True built wd) = Inr x"
proof -
  have n: "node_at wr md = node_at wd md" using assms by (rule tracks_node)
  define plan where "plan = fst (convert_plan md rel_root out_root cfg built wd)"
  define recs where "recs = snd (convert_plan md rel_root out_root cfg built wd)"
  have pr: "convert_plan md rel_root out_root cfg built wr = (plan, recs)"
    unfolding convert_plan_cong[OF n] plan_def recs_def by simp
  have pd: "convert_plan md rel_root out_root cfg built wd = (plan, recs)"
    unfolding plan_def recs_def by simp
  let ?d = "wd\<lparr>log := log wd @ recs\<rparr>" and ?r = "wr\<lparr>log := log wr @ recs\<rparr>"
  have t1: "tracks ?d ?r" using assms(1) by (simp add: tracks_def)
  have ed: "md_to_html_file md rel_root out_root cfg True built wd = carry_out plan True ?d"
    unfolding md_to_html_file_plan pd by simp
  have er: "md_to_html_file md rel_root out_root cfg False built wr = carry_out plan False ?r"
    unfolding md_to_html_file_plan pr by simp
  have both: "tracks (snd (carry_out plan True ?d)) (snd (carry_out plan False ?r))
      \<and> (fst (carry_out plan False ?r) = Inr x \<longrightarrow> fst (carry_out plan True ?d) = Inr x)"
  proof (cases plan)
    case (Inl e)
    then show ?thesis using t1 by (simp add: carry_out_def)
  next
    case (Inr opt)
    show ?thesis
    proof (cases opt)
      case None
      with Inr show ?thesis using t1 by (simp add: carry_out_def)
    next
      case (Some dp)
      obtain dst page where dp: "dp = (dst, page)" by (cases dp)
      have "fst (convert_plan md rel_root out_root cfg built wd) = Inr (Some (dst, page))"
        using Inr Some dp by (simp add: plan_def)
      then have h: "html_named dst" by (rule convert_plan_html)
      have t2: "tracks (snd (write_text dst page True ?d)) (snd (write_text dst page False ?r))"
        using t1 h by (rule write_text_tracks)
      have cd: "carry_out plan True ?d = (Inr (Some dst), snd (write_text dst page True ?d))"
        using Inr Some dp by (simp add: carry_out_def write_text_dry)
      have cr: "snd (carry_out plan False ?r) = snd (write_text dst page False ?r)"
        "fst (carry_out plan False ?r) = Inr x \<longrightarrow> x = Some dst"
        using Inr Some dp
        by (auto simp: carry_out_def split: prod.splits sum.splits)
      show ?thesis unfolding cd cr(1) using t2 cr(2) by simp
    qed
  qed
  show "tracks (snd (md_to_html_file md rel_root out_root cfg True built wd))
                (snd (md_to_html_file md rel_root out_root cfg False built wr))"
    unfolding ed er using both by blast
  show "fst (md_to_html_file md rel_root out_root cfg False built wr) = Inr x \<Longrightarrow>
         fst (md_to_html_file md rel_root out_root cfg True built wd) = Inr x"
    unfolding ed er using both by blast
qed

lemma md_to_html_file_log_mono:
  "prefix (log w) (log (snd (md_to_html_file md rel_root out_root cfg dry built w)))"
proof -
  define plan where "plan = fst (convert_plan md rel_root out_root cfg built w)"
  define recs where "recs = snd (convert_plan md rel_root out_root cfg built w)"
  let ?w = "w\<lparr>log := log w @ recs\<rparr>"
  have e: "md_to_html_file md rel_root out_root cfg dry built w = carry_out plan dry ?w"
    unfolding md_to_html_file_plan plan_def recs_def by simp
  have "prefix (log ?w) (log (snd (carry_out plan dry ?w)))"
  proof (cases plan)
    case (Inl e)
    then show ?thesis by (simp add: carry_out_def)
  next
    case (Inr opt)
    show ?thesis
    proof (cases opt)
      case None
      with Inr show ?thesis by (simp add: carry_out_def)
    next
      case (Some dp)
      obtain dst page where dp: "dp = (dst, page)" by (cases dp)
      have "log (snd (carry_out plan dry ?w)) = log (snd (write_text dst page dry ?w))"
        using Inr Some dp by (auto simp: carry_out_def split: prod.splits sum.splits)
      then show ?thesis unfolding write_text_log by simp
    qed
  qed
  moreover have "prefix (log w) (log ?w)" by simp
  ultimately show ?thesis unfolding e by (rule prefix_order.trans[rotated])
qed

lemma convert_loop_log_mono:
  "prefix (log w) (log (snd (convert_loop mds src dst cfg dry built w)))"
proof (induction mds arbitrary: w)
  case Nil
  show ?case by simp
next
  case (Cons md mds)
  obtain r w1 where m: "md_to_html_file md src dst cfg dry (built md) w = (r, w1)"
    by (cases "md_to_html_file md src dst cfg dry (built md) w")
  have p1: "prefix (log w) (log w1)"
    using md_to_html_file_log_mono[of w md src dst cfg dry "built md"] m by simp
  have p2: "prefix (log w1) (log (snd (convert_loop mds src dst cfg dry built w1)))"
    by (rule Cons.IH)
  show ?case
  proof (cases r)
    case (Inl e)
    then show ?thesis using m p1 by simp
  next
    case (Inr x)
    then show ?thesis using m p1 p2 by (auto intro: prefix_order.trans)
  qed
qed

lemma convert_loop_sim:
  assumes "tracks wd wr" "\<forall>md \<in> set mds. md_named md \<and> node_at wd md \<noteq> None"
  shows "prefix (log (snd (convert_loop mds src dst cfg False built wr)))
                (log (snd (convert_loop mds src dst cfg True built wd)))
       \<and> (fst (convert_loop mds src dst cfg False built wr) = Inr () \<longrightarrow>
            fst (convert_loop mds src dst cfg True built wd) = Inr ()
            \<and> tracks (snd (convert_loop mds src dst cfg True built wd))
                     (snd (convert_loop mds src dst cfg False built wr)))"
  using assms
proof (induction mds arbitrary: wd wr)
  case Nil
  then show ?case by (simp add: tracks_log)
next
  case (Cons md mds)
  obtain rr wr1 where mr: "md_to_html_file md src dst cfg False (built md) wr = (rr, wr1)"
    by (cases "md_to_html_file md src dst cfg False (built md) wr")
  obtain rd wd1 where md: "md_to_html_file md src dst cfg True (built md) wd = (rd, wd1)"
    by (cases "md_to_html_file md src dst cfg True (built md) wd")
  have m1: "md_named md" "node_at wd md \<noteq> None" using Cons.prems(2) by simp_all
  have t1: "tracks wd1 wr1"
    using md_to_html_file_sim(1)[OF Cons.prems(1) m1, of src dst cfg "built md"] mr md by simp
  have res: "rr = Inr x \<Longrightarrow> rd = Inr x" for x
    using md_to_html_file_sim(2)[OF Cons.prems(1) m1, of src dst cfg "built md" x] mr md by simp
  have e1: "entries wd1 = entries wd"
    using md_to_html_file_dry_entries[of md src dst cfg "built md" wd] md by simp
  have n1: "node_at wd1 = node_at wd" by (simp add: fun_eq_iff node_at_def e1)
  have rest: "\<forall>md \<in> set mds. md_named md \<and> node_at wd1 md \<noteq> None"
    unfolding n1 using Cons.prems(2) by simp
  note ih = Cons.IH[OF t1 rest]
  have mono: "prefix (log wd1) (log (snd (convert_loop mds src dst cfg True built wd1)))"
    by (rule convert_loop_log_mono)
  show ?case
  proof (cases rr)
    case (Inl e)
    have lr: "log wr1 = log wd1" using t1 by (simp add: tracks_log)
    have "prefix (log wd1) (log (snd (convert_loop (md # mds) src dst cfg True built wd)))"
      using md mono by (cases rd) simp_all
    then show ?thesis using Inl mr lr by simp
  next
    case (Inr x)
    from res[OF Inr] have rd: "rd = Inr x" .
    show ?thesis using Inr rd mr md ih by simp
  qed
qed

text \<open>The index: where the real run computes a page, the dry run computes the same page.\<close>

lemma index_entry_cong1:
  assumes "node_at w' p = node_at w p"
  shows "index_entry w' root p = index_entry w root p"
proof -
  have m: "md_title w' p = md_title w p" using assms by (simp add: md_title_def read_text_def)
  show ?thesis unfolding index_entry_def m by (rule refl)
qed

lemma entry_list_dir:
  assumes "node_at w p = Some Dir"
  shows "entry_list w root p = []"
proof -
  have "md_title w p = Inl IsADirectoryError" using assms by (simp add: md_title_def read_text_def)
  then show ?thesis
    by (simp add: entry_list_def index_entry_def split: sum.splits option.splits)
qed

lemma tracks_extra_dir:
  assumes "md_view wr = md_view wd @ extra"
    "\<forall>e \<in> set extra. snd e = Dir \<and> fst e \<notin> fst ` set (md_view wd)"
    "x \<in> fst ` set extra" "md_named x"
  shows "node_at wr x = Some Dir"
proof -
  from assms(2,3) have "x \<notin> fst ` set (md_view wd)" by auto
  then have n: "map_of (md_view wd) x = None" by (simp add: map_of_eq_None_iff)
  from assms(3) have "map_of extra x \<noteq> None" by (simp add: map_of_eq_None_iff)
  then obtain m where m: "map_of extra x = Some m" by auto
  then have "(x, m) \<in> set extra" by (rule map_of_SomeD)
  with assms(2) have "m = Dir" by auto
  have "map_of (md_view wr) x = Some Dir"
    unfolding assms(1) using n m \<open>m = Dir\<close> by (simp add: map_add_def)
  then show ?thesis using assms(4) by (simp add: md_view_node)
qed

lemma index_entries_tracks:
  assumes t: "tracks wd wr" and ok: "index_entries wr root = Inr es"
  shows "index_entries wd root = Inr es"
proof -
  from t obtain extra where e: "md_view wr = md_view wd @ extra"
    and x: "\<forall>e \<in> set extra. snd e = Dir \<and> fst e \<notin> fst ` set (md_view wd)"
    by (auto simp: tracks_def)
  define xs where "xs = filter (is_under root) (map fst extra)"
  have rg: "rglob wr root ''.md'' = rglob wd root ''.md'' @ xs"
    unfolding rglob_md_view e xs_def by simp
  have noerr: "\<not> (\<exists>p \<in> set (rglob wr root ''.md''). index_entry wr root p = Inl IsADirectoryError)"
    and us: "es = sort (concat (map (entry_list wr root) (rglob wr root ''.md'')))"
    using ok unfolding index_entries_def index_loop_rglob by (auto split: if_splits)
  have same: "index_entry wd root p = index_entry wr root p" if "p \<in> set (rglob wd root ''.md'')" for p
  proof -
    from rglob_md_named[OF that] have "md_named p" "node_at wd p \<noteq> None" by simp_all
    from tracks_node[OF t this] show ?thesis by (intro index_entry_cong1) simp
  qed
  then have el: "map (entry_list wd root) (rglob wd root ''.md'') = map (entry_list wr root) (rglob wd root ''.md'')"
    by (simp add: entry_list_def)
  have xe: "entry_list wr root p = []" if "p \<in> set xs" for p
  proof -
    from that have "p \<in> fst ` set extra" by (auto simp: xs_def)
    moreover have "p \<in> set (rglob wr root ''.md'')" unfolding rg using that by simp
    then have "md_named p" by (simp add: rglob_member md_named_def)
    ultimately have "node_at wr p = Some Dir" using tracks_extra_dir[OF e x] by blast
    then show ?thesis by (rule entry_list_dir)
  qed
  then have cx: "concat (map (entry_list wr root) xs) = []" by simp
  have noerr_d: "\<not> (\<exists>p \<in> set (rglob wd root ''.md''). index_entry wd root p = Inl IsADirectoryError)"
    using noerr same unfolding rg by auto
  have "index_entries wd root = Inr (sort (concat (map (entry_list wd root) (rglob wd root ''.md''))))"
    unfolding index_entries_def index_loop_rglob using noerr_d by simp
  also have "concat (map (entry_list wd root) (rglob wd root ''.md''))
      = concat (map (entry_list wr root) (rglob wr root ''.md''))"
    unfolding el rg using cx by simp
  finally show ?thesis using us by simp
qed

lemma index_md_named: "md_named (root @ [''__index__.md''])"
  by (simp add: md_named_def path_name_def endswith_def)

lemma index_body_tracks:
  assumes t: "tracks wd wr" and ok: "index_body wr root = Inr body"
  shows "index_body wd root = Inr body"
proof (cases "node_at wd (root @ [''__index__.md''])")
  case (Some n)
  then have "node_at wr (root @ [''__index__.md'']) = node_at wd (root @ [''__index__.md''])"
    using tracks_node[OF t index_md_named, of root] by simp
  then have "index_body wd root = index_body wr root"
    by (simp add: index_body_def path_exists_def read_text_def)
  with ok show ?thesis by simp
next
  case None
  from tracks_node_absent[OF t index_md_named None]
  have "node_at wr (root @ [''__index__.md'']) = None"
  proof
    assume "node_at wr (root @ [''__index__.md'']) = Some Dir"
    then have "index_body wr root = Inl IsADirectoryError"
      by (simp add: index_body_def path_exists_def read_text_def)
    with ok show ?thesis by simp
  qed simp
  with None have "index_body wd root = index_body wr root"
    by (simp add: index_body_def path_exists_def)
  with ok show ?thesis by simp
qed

lemma index_page_tracks:
  assumes t: "tracks wd wr" and ok: "index_page cfg built wr root = Inr page"
  shows "index_page cfg built wd root = Inr page"
proof -
  from ok obtain body where b: "index_body wr root = Inr body"
    unfolding index_page_parts by (cases "index_body wr root") simp_all
  from ok obtain es where es: "index_entries wr root = Inr es"
    unfolding index_page_parts b by (cases "index_entries wr root") simp_all
  show ?thesis
    using ok unfolding index_page_parts b es index_body_tracks[OF t b] index_entries_tracks[OF t es] .
qed

lemma index_html_named: "html_named (dst @ [''index.html''])"
  by (simp add: html_named_def path_name_def endswith_def)

lemma build_index_log_mono:
  "prefix (log w) (log (snd (build_index src dst cfg dry built w)))"
  by (cases "index_page cfg built w src") (simp_all add: build_index_def write_text_log)

lemma build_index_sim:
  assumes t: "tracks wd wr"
  shows "prefix (log (snd (build_index src dst cfg False built wr)))
                (log (snd (build_index src dst cfg True built wd)))
       \<and> (fst (build_index src dst cfg False built wr) = Inr () \<longrightarrow>
            fst (build_index src dst cfg True built wd) = Inr ()
            \<and> tracks (snd (build_index src dst cfg True built wd))
                     (snd (build_index src dst cfg False built wr)))"
proof (cases "index_page cfg built wr src")
  case (Inl e)
  have "prefix (log wd) (log (snd (build_index src dst cfg True built wd)))"
    by (rule build_index_log_mono)
  then show ?thesis using Inl t by (simp add: build_index_def tracks_log)
next
  case (Inr page)
  have d: "index_page cfg built wd src = Inr page" using t Inr by (rule index_page_tracks)
  let ?p = "dst @ [''index.html'']"
  have t2: "tracks (snd (write_text ?p page True wd)) (snd (write_text ?p page False wr))"
    using t index_html_named by (rule write_text_tracks)
  then have "log (snd (write_text ?p page False wr)) = log (snd (write_text ?p page True wd))"
    by (simp add: tracks_log)
  then show ?thesis using t2 by (simp add: build_index_def Inr d write_text_result_dry)
qed

text \<open>The build, as the sequence of its stages. The log of the real run is an initial part of
  the log of the dry run, and all of it when the real run succeeds.\<close>

definition found_record :: "nat \<Rightarrow> level \<times> string" where
  "found_record n = (INFO, ''found '' @ str_nat n @ '' markdown files'')"

definition complete_record :: "string \<Rightarrow> level \<times> string" where
  "complete_record domain = (INFO, ''build complete for '' @ domain)"

text \<open>The part of \<open>run_build\<close> after the files are collected.\<close>

definition build_pages ::
  "path \<Rightarrow> path \<Rightarrow> config \<Rightarrow> string \<Rightarrow> bool \<Rightarrow> (path \<Rightarrow> string) \<Rightarrow> path list \<Rightarrow> world
     \<Rightarrow> (error + unit) \<times> world" where
  "build_pages src dst cfg domain dry built mds w =
     (case convert_loop mds src dst cfg dry built w of
        (Inl e, w3) \<Rightarrow> (Inl e, w3)
      | (Inr u, w3) \<Rightarrow>
          (case build_index src dst cfg dry (built (dst @ [''index.html''])) w3 of
             (Inl e, w4) \<Rightarrow> (Inl e, w4)
           | (Inr u, w4) \<Rightarrow> (Inr (), w4\<lparr>log := log w4 @ [complete_record domain]\<rparr>)))"

lemma run_build_stages:
  assumes "src_root cfg = Some sr" "dst_root cfg = Some dr" "path_exists w (path_join sr domain)"
  shows "run_build cfg domain cf dry now w =
    (case (if cf then clean_domain (path_join dr domain) dry w else (Inr (), w)) of
       (Inl e, w1) \<Rightarrow> (Inl e, w1)
     | (Inr u, w1) \<Rightarrow>
         build_pages (path_join sr domain) (path_join dr domain) cfg domain dry now
           (collect_md_files w1 (path_join sr domain))
           (w1\<lparr>log := log w1 @ [found_record (length (collect_md_files w1 (path_join sr domain)))]\<rparr>))"
  unfolding run_build_def build_pages_def found_record_def complete_record_def logging_def Let_def
    assms(1,2) option.case
  using assms(3) by (simp only: simp_thms if_False)

lemma run_build_early:
  assumes "src_root cfg = None \<or> dst_root cfg = None
      \<or> (\<exists>sr. src_root cfg = Some sr \<and> \<not> path_exists w (path_join sr domain))"
  shows "run_build cfg domain cf True now w = run_build cfg domain cf False now w"
  using assms by (auto simp: run_build_def Let_def split: option.splits)

lemma build_pages_log_mono:
  "prefix (log w) (log (snd (build_pages src dst cfg domain dry built mds w)))"
proof -
  obtain r3 w3 where c: "convert_loop mds src dst cfg dry built w = (r3, w3)"
    by (cases "convert_loop mds src dst cfg dry built w")
  have p3: "prefix (log w) (log w3)"
    using convert_loop_log_mono[of w mds src dst cfg dry built] c by simp
  obtain r4 w4 where b: "build_index src dst cfg dry (built (dst @ [''index.html''])) w3 = (r4, w4)"
    by (cases "build_index src dst cfg dry (built (dst @ [''index.html''])) w3")
  have p4: "prefix (log w3) (log w4)"
    using build_index_log_mono[of w3 src dst cfg dry "built (dst @ [''index.html''])"] b by simp
  have p34: "prefix (log w) (log w4)" using p3 p4 by (rule prefix_order.trans)
  have p5: "prefix (log w) (log w4 @ [complete_record domain])"
    using p34 by (rule prefix_prefix)
  show ?thesis
    unfolding build_pages_def c using p3 p34 p5 b by (cases r3; cases r4) simp_all
qed

lemma build_pages_sim:
  assumes t: "tracks wd wr" and m: "\<forall>md \<in> set mds. md_named md \<and> node_at wd md \<noteq> None"
  shows "prefix (log (snd (build_pages src dst cfg domain False built mds wr)))
                (log (snd (build_pages src dst cfg domain True built mds wd)))
       \<and> (fst (build_pages src dst cfg domain False built mds wr) = Inr () \<longrightarrow>
            fst (build_pages src dst cfg domain True built mds wd) = Inr ()
            \<and> log (snd (build_pages src dst cfg domain True built mds wd))
                = log (snd (build_pages src dst cfg domain False built mds wr)))"
proof -
  let ?ix = "built (dst @ [''index.html''])"
  obtain rr3 wr3 where cr: "convert_loop mds src dst cfg False built wr = (rr3, wr3)"
    by (cases "convert_loop mds src dst cfg False built wr")
  obtain rd3 wd3 where cd: "convert_loop mds src dst cfg True built wd = (rd3, wd3)"
    by (cases "convert_loop mds src dst cfg True built wd")
  from convert_loop_sim[OF t m, of src dst cfg built]
  have p3: "prefix (log wr3) (log wd3)"
    and s3: "rr3 = Inr () \<longrightarrow> rd3 = Inr () \<and> tracks wd3 wr3"
    unfolding cr cd by simp_all
  obtain rr4 wr4 where br: "build_index src dst cfg False ?ix wr3 = (rr4, wr4)"
    by (cases "build_index src dst cfg False ?ix wr3")
  obtain rd4 wd4 where bd: "build_index src dst cfg True ?ix wd3 = (rd4, wd4)"
    by (cases "build_index src dst cfg True ?ix wd3")
  have m4: "prefix (log wd3) (log wd4)"
    using build_index_log_mono[of wd3 src dst cfg True ?ix] bd by simp
  define fin where "fin = snd (build_pages src dst cfg domain True built mds wd)"
  have dry_tail: "prefix (log wd3) (log fin)"
  proof -
    have "prefix (log wd3) (log wd4 @ [complete_record domain])" using m4 by (rule prefix_prefix)
    then show ?thesis
      unfolding fin_def build_pages_def cd using bd m4 by (cases rd3; cases rd4) simp_all
  qed
  show ?thesis
  proof (cases rr3)
    case (Inl e)
    have "prefix (log wr3) (log fin)" using p3 dry_tail by (rule prefix_order.trans)
    then show ?thesis using Inl unfolding fin_def build_pages_def cr by simp
  next
    case (Inr u)
    with s3 have rd3: "rd3 = Inr ()" and t3: "tracks wd3 wr3" by simp_all
    from build_index_sim[OF t3, of src dst cfg ?ix]
    have p4: "prefix (log wr4) (log wd4)"
      and s4: "rr4 = Inr () \<longrightarrow> rd4 = Inr () \<and> tracks wd4 wr4"
      unfolding br bd by simp_all
    show ?thesis
    proof (cases rr4)
      case (Inl e)
      have "prefix (log wd4) (log fin)"
        unfolding fin_def build_pages_def cd using rd3 bd by (cases rd4) simp_all
      with p4 have "prefix (log wr4) (log fin)" by (rule prefix_order.trans)
      then show ?thesis using Inl Inr unfolding fin_def build_pages_def cr by (simp add: br)
    next
      case r4: (Inr u4)
      with s4 have rd4: "rd4 = Inr ()" and t4: "tracks wd4 wr4" by simp_all
      have l4: "log wd4 = log wr4" using t4 by (rule tracks_log)
      show ?thesis
        unfolding build_pages_def cr cd using Inr rd3 r4 rd4 l4 by (simp add: br bd)
    qed
  qed
qed

lemma collect_md_files_view:
  "md_view w' = md_view w \<Longrightarrow> collect_md_files w' root = collect_md_files w root"
  by (simp add: collect_md_files_def rglob_md_view)

lemma run_build_sim:
  "prefix (log (snd (run_build cfg domain cf False now w)))
          (log (snd (run_build cfg domain cf True now w)))
   \<and> (fst (run_build cfg domain cf False now w) = Inr () \<longrightarrow>
        fst (run_build cfg domain cf True now w) = Inr ()
        \<and> log (snd (run_build cfg domain cf True now w))
            = log (snd (run_build cfg domain cf False now w)))"
proof (cases "src_root cfg = None \<or> dst_root cfg = None
      \<or> (\<exists>sr. src_root cfg = Some sr \<and> \<not> path_exists w (path_join sr domain))")
  case True
  then show ?thesis unfolding run_build_early[OF True] by simp
next
  case False
  then obtain sr dr where sr: "src_root cfg = Some sr" and dr: "dst_root cfg = Some dr"
    and pe: "path_exists w (path_join sr domain)" by auto
  define src where "src = path_join sr domain"
  define dst where "dst = path_join dr domain"
  note st = run_build_stages[OF sr dr pe, folded src_def dst_def]
  define c where "c = (\<lambda>dry. if cf then clean_domain dst dry w else (Inr (), w))"
  define after where "after = (\<lambda>dry w1. build_pages src dst cfg domain dry now (collect_md_files w1 src)
           (w1\<lparr>log := log w1 @ [found_record (length (collect_md_files w1 src))]\<rparr>))"
  have run: "run_build cfg domain cf dry now w =
      (case c dry of (Inl e, w1) \<Rightarrow> (Inl e, w1) | (Inr u, w1) \<Rightarrow> after dry w1)" for dry
    unfolding st c_def after_def by (rule refl)
  obtain wd1 where cdry: "c True = (Inr (), wd1)" and ed: "entries wd1 = entries w"
    unfolding c_def by (cases cf) (simp_all add: clean_domain_dry)
  obtain rr1 wr1 where creal: "c False = (rr1, wr1)" by (cases "c False")
  have p1: "prefix (log wr1) (log wd1)"
    using clean_domain_log_prefix[of dst w] cdry creal unfolding c_def by (cases cf) auto
  have v1: "md_view wr1 = md_view wd1"
  proof -
    have "md_view wr1 = md_view w"
      using clean_domain_md_view[of dst w] creal unfolding c_def by (cases cf) auto
    moreover have "md_view wd1 = md_view w" by (simp add: md_view_def ed)
    ultimately show ?thesis by simp
  qed
  have l1: "rr1 = Inr () \<Longrightarrow> log wd1 = log wr1"
    using clean_domain_log[of dst w] cdry creal unfolding c_def by (cases cf) auto
  have mono: "prefix (log wd1) (log (snd (after True wd1)))"
  proof -
    have "prefix (log (wd1\<lparr>log := log wd1 @ [found_record (length (collect_md_files wd1 src))]\<rparr>))
        (log (snd (after True wd1)))"
      unfolding after_def by (rule build_pages_log_mono)
    then show ?thesis by (auto elim: prefix_order.trans[rotated])
  qed
  have rd: "run_build cfg domain cf True now w = after True wd1" unfolding run cdry by simp
  show ?thesis
  proof (cases rr1)
    case (Inl e)
    have "prefix (log wr1) (log (snd (after True wd1)))" using p1 mono by (rule prefix_order.trans)
    then show ?thesis unfolding rd unfolding run creal using Inl by simp
  next
    case (Inr u)
    have rr: "run_build cfg domain cf False now w = after False wr1" unfolding run creal using Inr by simp
    have files: "collect_md_files wr1 src = collect_md_files wd1 src"
      using v1 by (rule collect_md_files_view)
    let ?rec = "found_record (length (collect_md_files wd1 src))"
    have t2: "tracks (wd1\<lparr>log := log wd1 @ [?rec]\<rparr>) (wr1\<lparr>log := log wr1 @ [?rec]\<rparr>)"
      using l1 Inr v1 by (intro tracks_same_view) simp_all
    have m: "\<forall>md \<in> set (collect_md_files wd1 src).
        md_named md \<and> node_at (wd1\<lparr>log := log wd1 @ [?rec]\<rparr>) md \<noteq> None"
    proof
      fix md assume "md \<in> set (collect_md_files wd1 src)"
      then have a: "md_named md \<and> node_at wd1 md \<noteq> None"
        unfolding collect_md_files_def by (rule rglob_md_named)
      have "node_at (wd1\<lparr>log := log wd1 @ [?rec]\<rparr>) md = node_at wd1 md" by (simp add: node_at_def)
      with a show "md_named md \<and> node_at (wd1\<lparr>log := log wd1 @ [?rec]\<rparr>) md \<noteq> None" by simp
    qed
    from build_pages_sim[OF t2 m, of src dst cfg domain now]
    show ?thesis unfolding rd rr after_def files .
  qed
qed

lemma run_clean_sim:
  "prefix (log (snd (run_clean cfg domain False w))) (log (snd (run_clean cfg domain True w)))
   \<and> (fst (run_clean cfg domain False w) = Inr () \<longrightarrow>
        fst (run_clean cfg domain True w) = Inr ()
        \<and> log (snd (run_clean cfg domain True w)) = log (snd (run_clean cfg domain False w)))"
proof (cases "dst_root cfg")
  case None
  then show ?thesis by (simp add: run_clean_def)
next
  case (Some dr)
  let ?dst = "path_join dr domain"
  obtain rr wr where cr: "clean_domain ?dst False w = (rr, wr)" by (cases "clean_domain ?dst False w")
  obtain wd where cd: "clean_domain ?dst True w = (Inr (), wd)" by (simp add: clean_domain_dry)
  have p: "prefix (log wr) (log wd)" using clean_domain_log_prefix[of ?dst w] cr cd by simp
  have l: "rr = Inr () \<Longrightarrow> log wd = log wr" using clean_domain_log[of ?dst w] cr cd by simp
  show ?thesis
  proof (cases rr)
    case (Inl e)
    have "prefix (log wr) (log wd @ [(INFO, ''clean complete for '' @ domain)])"
      using p by (rule prefix_prefix)
    then show ?thesis using Inl by (simp add: run_clean_def Some cr cd logging_def)
  next
    case (Inr u)
    with l show ?thesis by (simp add: run_clean_def Some cr cd logging_def)
  qed
qed

lemma path_join_examples:
  "path_join [''src''] ''site'' = [''src'', ''site'']
 \<and> path_join [''src''] '''' = [''src'']
 \<and> path_join [''src''] ''.'' = [''src'']
 \<and> path_join [''src''] ''a/b'' = [''src'', ''a'', ''b'']
 \<and> path_join [''src''] ''a//b/./c/'' = [''src'', ''a'', ''b'', ''c'']
 \<and> path_join [''src''] ''/x/y'' = [''x'', ''y'']
 \<and> path_join [''src''] ''../y'' = [''src'', ''..'', ''y'']"
  by code_simp

section \<open>Claims about the inline renderer\<close>

text \<open>
  C1. For a line whose escaped form holds an even, positive number of a delimiter, inline
  rendering wraps the enclosed segments in the tag pair and leaves the rest as escaped text.
  The code does not: in \<open>a *b* c\<close> the two stars split the line into three parts, the loop of
  \<open>_replace_delimited\<close> ends with \<open>toggle\<close> true, and the original string is returned, so
  the pair is left unsubstituted (\<open>replace_delimited_even_count\<close> is the general fact).
\<close>

theorem render_inline_matched_pair_unchanged:
  "str_count (escape ''a *b* c'') ''*'' = 2 \<and>
   replace_delimited (escape ''a *b* c'') ''*'' ''<em>'' ''</em>'' = Inr ''a *b* c'' \<and>
   render_inline ''a *b* c'' = Inr ''a *b* c''"
  by code_simp

text \<open>
  C2. For a line with an odd number of a delimiter, inline rendering substitutes nothing for
  that delimiter and raises nothing. The code raises nothing, and leaves a single delimiter
  alone (fewer than three parts), but with three stars the loop ends with \<open>toggle\<close> false and
  the joined parts are returned, the last one wrapped although no delimiter closes it
  (\<open>replace_delimited_odd_count\<close> is the general fact).
\<close>

theorem render_inline_odd_count_substituted:
  "str_count (escape ''a *b* c *d'') ''*'' = 3 \<and>
   render_inline ''a *b* c *d'' = Inr ''a <em>b</em> c <em>d</em>''"
  by code_simp

section \<open>Claims about the block renderer\<close>

text \<open>
  C3. A heading line yields \<open><hN>\<close> with N the number of leading \<open>#\<close> clamped to 1..6 and
  the marker stripped; more than six \<open>#\<close> yield an \<open><h6>\<close> with no \<open>#\<close> left in its text.
  The two examples of the claim hold, but the code slices the line at the clamped level, so
  the seventh \<open>#\<close> stays in the text.
\<close>

theorem heading_seven_hashes_keeps_marker:
  "markdown_to_html ''# Title'' = Inr ''<h1>Title</h1>'' \<and>
   markdown_to_html ''###### Deep'' = Inr ''<h6>Deep</h6>'' \<and>
   markdown_to_html ''####### Seven'' = Inr ''<h6># Seven</h6>''"
  by code_simp

text \<open>
  C4. A fenced code block (opening fence, interior lines, closing fence) yields one
  \<open><pre><code>\<close> element holding the interior lines escaped and otherwise verbatim, with no
  Markdown processing of them and without the language of the opening fence. The first block
  below is rendered so. The code joins the buffered lines, escapes the text and splits it
  into lines again, and \<open>splitlines\<close> yields no line after a final newline: an empty last
  interior line is lost, as in the second block.
\<close>

theorem fenced_block_drops_trailing_blank_line:
  "splitlines ''```py\<newline># a <b>\<newline>- x\<newline>```'' = [''```py'', ''# a <b>'', ''- x'', ''```'']
   \<and> markdown_to_html ''```py\<newline># a <b>\<newline>- x\<newline>```''
       = Inr ''<pre><code>\<newline># a &lt;b&gt;\<newline>- x\<newline></code></pre>''
   \<and> splitlines ''```\<newline>a\<newline>\<newline>```'' = [''```'', ''a'', [], ''```'']
   \<and> markdown_to_html ''```\<newline>a\<newline>\<newline>```'' = Inr ''<pre><code>\<newline>a\<newline></code></pre>''"
  by code_simp




text \<open>
  C10. A fence that is opened and never closed produces no \<open><pre><code>\<close> element, and the
  lines buffered after it are absent from the result: the document renders as the lines
  before the fence do (\<open>st\<close> is the state of the loop after them, outside a fence).
\<close>

theorem unclosed_fence_dropped:
  assumes "splitlines md = pre @ fence # interior"
    and "is_fenced_start fence \<noteq> None"
    and "\<forall>l \<in> set interior. is_fenced_start l = None"
    and "md_loop pre 0 init_state = Inr st"
    and "\<not> in_code st"
  shows "markdown_to_html md =
     Inr (str_join [CHR 0x0A]
            (html_lines st @ (if list_open st then [''</ul>''] else [])
                           @ (if ol_open st then [''</ol>''] else [])))"
proof -
  let ?lines = "pre @ fence # interior"
  obtain f where f: "is_fenced_start fence = Some f" using assms(2) by blast
  have ni: "\<not> indented fence" using f by (rule startswith_fence_not_indented)
  have "md_loop ?lines 0 init_state = md_loop ?lines (length pre) st"
    using md_loop_prefix[OF ni, of 0 pre interior init_state] assms(4) by simp
  also have "\<dots> = md_loop ?lines (length pre + 1) (st\<lparr>in_code := True\<rparr>)"
    using md_step_fence_open[of ?lines "length pre" f st] f assms(5)
    by (subst md_loop.simps) simp
  also have "\<dots> = Inr (st\<lparr>in_code := True\<rparr>\<lparr>code_buf := code_buf (st\<lparr>in_code := True\<rparr>) @ drop (length pre + 1) ?lines\<rparr>)"
    using assms(3) by (intro md_loop_buffer) auto
  finally show ?thesis using assms(1) by (simp add: markdown_to_html_def)
qed

theorem unclosed_fence_dropped_witness:
  "splitlines ''- a\<newline>```py\<newline># h\<newline>- x'' = [''- a''] @ ''```py'' # [''# h'', ''- x'']
   \<and> is_fenced_start ''```py'' \<noteq> None
   \<and> md_loop [''- a''] 0 init_state
       = Inr \<lparr>html_lines = [''<ul>'', ''<li>a</li>''], in_code = False, code_buf = [],
              list_open = True, ol_open = False\<rparr>
   \<and> markdown_to_html ''- a\<newline>```py\<newline># h\<newline>- x'' = Inr ''<ul>\<newline><li>a</li>\<newline></ul>''"
proof -
  define s1 where "s1 = \<lparr>html_lines = [''<ul>'', ''<li>a</li>''], in_code = False, code_buf = [],
       list_open = True, ol_open = False\<rparr>"
  have h1: "splitlines ''- a\<newline>```py\<newline># h\<newline>- x'' = [''- a''] @ ''```py'' # [''# h'', ''- x'']"
    by code_simp
  have h2: "is_fenced_start ''```py'' \<noteq> None" by code_simp
  have h3: "\<forall>l \<in> set [''# h'', ''- x'']. is_fenced_start l = None" by code_simp
  have h4: "md_loop [''- a''] 0 init_state = Inr s1" unfolding s1_def by code_simp
  have h5: "\<not> in_code s1" by (simp add: s1_def)
  have e: "str_join [CHR 0x0A] (html_lines s1 @ (if list_open s1 then [''</ul>''] else [])
                           @ (if ol_open s1 then [''</ol>''] else []))
      = ''<ul>\<newline><li>a</li>\<newline></ul>''"
    unfolding s1_def by code_simp
  have "markdown_to_html ''- a\<newline>```py\<newline># h\<newline>- x'' = Inr ''<ul>\<newline><li>a</li>\<newline></ul>''"
    using unclosed_fence_dropped[OF h1 h2 h3 h4 h5] by (simp only: e)
  with h1 h2 h4 show ?thesis unfolding s1_def by blast
qed

section \<open>Claims about the build\<close>

text \<open>A small site, for the examples: two posts, the index source, and a destination that
  holds an old page and a style sheet.\<close>

definition sample_world :: world where
  "sample_world =
     \<lparr>entries =
        [([''src''], Dir), ([''src'', ''site''], Dir),
         ([''src'', ''site'', ''b-post.md''], File ''# Bee\<newline>text''),
         ([''src'', ''site'', ''__index__.md''], File ''# Welcome''),
         ([''src'', ''site'', ''sub''], Dir),
         ([''src'', ''site'', ''sub'', ''a.md''], File ''no heading''),
         ([''out''], Dir), ([''out'', ''site''], Dir),
         ([''out'', ''site'', ''old.html''], File ''x''),
         ([''out'', ''site'', ''style.css''], File ''y'')],
      log = []\<rparr>"

definition sample_config :: config where
  "sample_config =
     \<lparr>site_title = ''S'', base_url = ''/'', css_href = ''/style.css'', date_format = ''%Y-%m-%d'',
      src_root = Some [''src''], dst_root = Some [''out'']\<rparr>"

text \<open>
  C6. For the same set of Markdown files the index that \<open>build_index\<close> produces is the same
  for every order in which the file system enumerates them; its listing is the list of
  (href, title) entries sorted ascending by the relative HTML path with forward slashes, and
  that sort key is the string emitted as the \<open><a href>\<close> target. In the order of the
  conjuncts: two file systems with the same entries in another order give the same entries,
  the same index page, the same outcome of \<open>build_index\<close> and the same file \<open>index.html\<close>
  after it; the entries are the collected ones, sorted (by href, then title), and each line
  of the listing carries the first component of its entry as the href; the index page is
  the template around the body and the listing of the sorted entries; and that page is what
  \<open>index.html\<close> holds after a build of the index.
\<close>

theorem index_listing_order_independent:
  \<open>(mset (entries w) = mset (entries w') \<and> distinct (map fst (entries w)) \<longrightarrow>
      index_entries w' root = index_entries w root
      \<and> index_page cfg built w' root = index_page cfg built w root
      \<and> fst (build_index root dst cfg dry built w') = fst (build_index root dst cfg dry built w)
      \<and> read_text (snd (build_index root dst cfg dry built w')) (dst @ [''index.html''])
          = read_text (snd (build_index root dst cfg dry built w)) (dst @ [''index.html'']))
 \<and> (index_entries w2 root2 = Inr es \<longrightarrow>
      sorted (map fst es) \<and> sorted es
      \<and> (\<exists>us. index_loop w2 root2 (rglob w2 root2 ''.md'') [] = Inr us \<and> mset es = mset us)
      \<and> index_listing es
          = [''<h2>Posts</h2>'', ''<ul>'']
            @ map (\<lambda>e. ''<li><a href="'' @ fst e @ ''">'' @ escape (snd e) @ ''</a></li>'') es
            @ [''</ul>''])
 \<and> (index_page cfg3 built3 w3 root3 = Inr page3 \<longrightarrow>
      (\<exists>body es3. index_body w3 root3 = Inr body \<and> index_entries w3 root3 = Inr es3
         \<and> sorted (map fst es3)
         \<and> page3 = render_page cfg3 built3 (site_title cfg3 @ index_title_suffix)
              (body @ [CHR 0x0A] @ str_join [CHR 0x0A]
                 ([''<h2>Posts</h2>'', ''<ul>'']
                  @ map (\<lambda>e. ''<li><a href="'' @ fst e @ ''">'' @ escape (snd e) @ ''</a></li>'') es3
                  @ [''</ul>'']))
              ''index.html''))
 \<and> (build_index root4 dst4 cfg4 False built4 w4 = (Inr (), w4') \<longrightarrow>
      (\<exists>body es4. index_body w4 root4 = Inr body \<and> index_entries w4 root4 = Inr es4
         \<and> sorted (map fst es4)
         \<and> read_text w4' (dst4 @ [''index.html''])
             = Inr (render_page cfg4 built4 (site_title cfg4 @ index_title_suffix)
                 (body @ [CHR 0x0A] @ str_join [CHR 0x0A]
                    ([''<h2>Posts</h2>'', ''<ul>'']
                     @ map (\<lambda>e. ''<li><a href="'' @ fst e @ ''">'' @ escape (snd e) @ ''</a></li>'') es4
                     @ [''</ul>'']))
                 ''index.html'')))\<close>
proof -
  have il: \<open>index_listing xs
          = [''<h2>Posts</h2>'', ''<ul>'']
            @ map (\<lambda>e. ''<li><a href="'' @ fst e @ ''">'' @ escape (snd e) @ ''</a></li>'') xs
            @ [''</ul>'']\<close> for xs
    by (simp add: index_listing_def listing_item_def fun_eq_iff)
  show ?thesis
  proof (intro conjI impI)
    assume a: "mset (entries w) = mset (entries w') \<and> distinct (map fst (entries w))"
    then show "index_entries w' root = index_entries w root"
      using permuted_index_entries by blast
    from a show "index_page cfg built w' root = index_page cfg built w root"
      using permuted_index_page by blast
    from a show "fst (build_index root dst cfg dry built w') = fst (build_index root dst cfg dry built w)"
      using permuted_build_index(1) by blast
    from a have "node_at (snd (build_index root dst cfg dry built w'))
        = node_at (snd (build_index root dst cfg dry built w))"
      using permuted_build_index(2) by blast
    then show "read_text (snd (build_index root dst cfg dry built w')) (dst @ [''index.html''])
          = read_text (snd (build_index root dst cfg dry built w)) (dst @ [''index.html''])"
      by (simp add: read_text_def)
  next
    assume a: "index_entries w2 root2 = Inr es"
    show "sorted (map fst es)" using index_entries_sorted(2)[OF a] .
    show "sorted es" using index_entries_sorted(1)[OF a] .
    show "\<exists>us. index_loop w2 root2 (rglob w2 root2 ''.md'') [] = Inr us \<and> mset es = mset us"
      using index_entries_sorted(3)[OF a] .
    show \<open>index_listing es
          = [''<h2>Posts</h2>'', ''<ul>'']
            @ map (\<lambda>e. ''<li><a href="'' @ fst e @ ''">'' @ escape (snd e) @ ''</a></li>'') es
            @ [''</ul>'']\<close>
      by (rule il)
  next
    assume "index_page cfg3 built3 w3 root3 = Inr page3"
    from index_page_listing[OF this]
    show \<open>\<exists>body es3. index_body w3 root3 = Inr body \<and> index_entries w3 root3 = Inr es3
         \<and> sorted (map fst es3)
         \<and> page3 = render_page cfg3 built3 (site_title cfg3 @ index_title_suffix)
              (body @ [CHR 0x0A] @ str_join [CHR 0x0A]
                 ([''<h2>Posts</h2>'', ''<ul>'']
                  @ map (\<lambda>e. ''<li><a href="'' @ fst e @ ''">'' @ escape (snd e) @ ''</a></li>'') es3
                  @ [''</ul>'']))
              ''index.html''\<close>
      unfolding il .
  next
    assume "build_index root4 dst4 cfg4 False built4 w4 = (Inr (), w4')"
    from build_index_written[OF this] obtain page where
      p: "index_page cfg4 built4 w4 root4 = Inr page"
      and r: "read_text w4' (dst4 @ [''index.html'']) = Inr page" by blast
    from index_page_listing[OF p]
    show \<open>\<exists>body es4. index_body w4 root4 = Inr body \<and> index_entries w4 root4 = Inr es4
         \<and> sorted (map fst es4)
         \<and> read_text w4' (dst4 @ [''index.html''])
             = Inr (render_page cfg4 built4 (site_title cfg4 @ index_title_suffix)
                 (body @ [CHR 0x0A] @ str_join [CHR 0x0A]
                    ([''<h2>Posts</h2>'', ''<ul>'']
                     @ map (\<lambda>e. ''<li><a href="'' @ fst e @ ''">'' @ escape (snd e) @ ''</a></li>'') es4
                     @ [''</ul>'']))
                 ''index.html'')\<close>
      unfolding il r by blast
  qed
qed

theorem index_listing_order_independent_witness:
  \<open>index_entries (sample_world\<lparr>entries := rev (entries sample_world)\<rparr>) [''src'', ''site'']
     = index_entries sample_world [''src'', ''site'']
 \<and> index_page sample_config ''2026-01-01 00:00:00''
       (sample_world\<lparr>entries := rev (entries sample_world)\<rparr>) [''src'', ''site'']
     = index_page sample_config ''2026-01-01 00:00:00'' sample_world [''src'', ''site'']
 \<and> read_text (snd (build_index [''src'', ''site''] [''out'', ''site''] sample_config False
                       ''2026-01-01 00:00:00'' (sample_world\<lparr>entries := rev (entries sample_world)\<rparr>)))
       [''out'', ''site'', ''index.html'']
     = read_text (snd (build_index [''src'', ''site''] [''out'', ''site''] sample_config False
                         ''2026-01-01 00:00:00'' sample_world))
         [''out'', ''site'', ''index.html'']
 \<and> index_entries sample_world [''src'', ''site'']
     = Inr [(''b-post.html'', ''Bee''), (''sub/a.html'', ''a'')]
 \<and> rglob (sample_world\<lparr>entries := rev (entries sample_world)\<rparr>) [''src'', ''site''] ''.md''
     = [[''src'', ''site'', ''sub'', ''a.md''], [''src'', ''site'', ''__index__.md''],
        [''src'', ''site'', ''b-post.md'']]
 \<and> sorted (map fst [(''b-post.html'', ''Bee''), (''sub/a.html'', ''a'')])
 \<and> index_listing [(''b-post.html'', ''Bee''), (''sub/a.html'', ''a'')]
     = [''<h2>Posts</h2>'', ''<ul>'', ''<li><a href="b-post.html">Bee</a></li>'',
        ''<li><a href="sub/a.html">a</a></li>'', ''</ul>'']
 \<and> fst (build_index [''src'', ''site''] [''out'', ''site''] sample_config False
           ''2026-01-01 00:00:00'' sample_world) = Inr ()
 \<and> read_text (snd (build_index [''src'', ''site''] [''out'', ''site''] sample_config False
                       ''2026-01-01 00:00:00'' sample_world))
       [''out'', ''site'', ''index.html'']
     = Inr (render_page sample_config ''2026-01-01 00:00:00'' (''S'' @ index_title_suffix)
              (''<h1>Welcome</h1>'' @ [CHR 0x0A] @ str_join [CHR 0x0A]
                 [''<h2>Posts</h2>'', ''<ul>'', ''<li><a href="b-post.html">Bee</a></li>'',
                  ''<li><a href="sub/a.html">a</a></li>'', ''</ul>''])
              ''index.html'')
 \<and> index_page sample_config ''2026-01-01 00:00:00'' sample_world [''src'', ''site'']
     = Inr (render_page sample_config ''2026-01-01 00:00:00'' (''S'' @ index_title_suffix)
              (''<h1>Welcome</h1>'' @ [CHR 0x0A] @ str_join [CHR 0x0A]
                 [''<h2>Posts</h2>'', ''<ul>'', ''<li><a href="b-post.html">Bee</a></li>'',
                  ''<li><a href="sub/a.html">a</a></li>'', ''</ul>''])
              ''index.html'')\<close>
proof -
  define w' where "w' = sample_world\<lparr>entries := rev (entries sample_world)\<rparr>"
  define es where "es = [(''b-post.html'', ''Bee''), (''sub/a.html'', ''a'')]"
  define src where "src = [''src'', ''site'']"
  define out where "out = [''out'', ''site'']"
  define built where "built = ''2026-01-01 00:00:00''"
  define wb where "wb = snd (build_index src out sample_config False built sample_world)"
  define pg where \<open>pg = render_page sample_config built (''S'' @ index_title_suffix)
              (''<h1>Welcome</h1>'' @ [CHR 0x0A] @ str_join [CHR 0x0A]
                 [''<h2>Posts</h2>'', ''<ul>'', ''<li><a href="b-post.html">Bee</a></li>'',
                  ''<li><a href="sub/a.html">a</a></li>'', ''</ul>''])
              ''index.html''\<close>
  note T = index_listing_order_independent[where w = sample_world and w' = w'
      and root = src and cfg = sample_config and built = built and dst = out and dry = False
      and ?w2.0 = sample_world and ?root2.0 = src and es = es
      and ?cfg3.0 = sample_config and ?built3.0 = built and ?w3.0 = sample_world and ?root3.0 = src
      and ?page3.0 = pg
      and ?root4.0 = src and ?dst4.0 = out and ?cfg4.0 = sample_config and ?built4.0 = built
      and ?w4.0 = sample_world and ?w4'.0 = wb]
  have "distinct (map fst (entries sample_world))" by code_simp
  then have h1: "mset (entries sample_world) = mset (entries w') \<and> distinct (map fst (entries sample_world))"
    by (simp add: w'_def)
  have h2: "index_entries sample_world src = Inr es" unfolding es_def src_def by code_simp
  have hb: "index_body sample_world src = Inr ''<h1>Welcome</h1>''" unfolding src_def by code_simp
  have h3: "index_page sample_config built sample_world src = Inr pg"
    unfolding pg_def src_def built_def by code_simp
  have f4: "fst (build_index src out sample_config False built sample_world) = Inr ()"
    unfolding src_def out_def built_def by code_simp
  then have h4: "build_index src out sample_config False built sample_world = (Inr (), wb)"
    by (simp add: wb_def prod_eq_iff)
  have e1: "rglob w' src ''.md''
     = [[''src'', ''site'', ''sub'', ''a.md''], [''src'', ''site'', ''__index__.md''],
        [''src'', ''site'', ''b-post.md'']]"
    unfolding w'_def src_def by code_simp
  have e2: \<open>[''<h2>Posts</h2>'', ''<ul>'']
            @ map (\<lambda>e. ''<li><a href="'' @ fst e @ ''">'' @ escape (snd e) @ ''</a></li>'') es
            @ [''</ul>'']
     = [''<h2>Posts</h2>'', ''<ul>'', ''<li><a href="b-post.html">Bee</a></li>'',
        ''<li><a href="sub/a.html">a</a></li>'', ''</ul>'']\<close>
    unfolding es_def by code_simp
  have e3: "out @ [''index.html''] = [''out'', ''site'', ''index.html'']" unfolding out_def by simp
  have e4: "site_title sample_config = ''S''" by code_simp
  note c1 = T[THEN conjunct1, THEN mp, OF h1]
  from c1 have c1a: "index_entries w' src = index_entries sample_world src" by blast
  from c1 have c1b: "index_page sample_config built w' src = index_page sample_config built sample_world src"
    by blast
  from c1 have c1c: "read_text (snd (build_index src out sample_config False built w')) [''out'', ''site'', ''index.html'']
      = read_text wb [''out'', ''site'', ''index.html'']"
    unfolding e3 wb_def by blast
  note c2 = T[THEN conjunct2, THEN conjunct1, THEN mp, OF h2]
  from c2 have c3: "sorted (map fst es)" by blast
  from c2 have c4: \<open>index_listing es
     = [''<h2>Posts</h2>'', ''<ul>'', ''<li><a href="b-post.html">Bee</a></li>'',
        ''<li><a href="sub/a.html">a</a></li>'', ''</ul>'']\<close>
    unfolding e2 by blast
  from T[THEN conjunct2, THEN conjunct2, THEN conjunct2, THEN mp, OF h4]
  obtain body es4 where b: "index_body sample_world src = Inr body"
    and e: "index_entries sample_world src = Inr es4"
    and r: \<open>read_text wb (out @ [''index.html''])
             = Inr (render_page sample_config built (site_title sample_config @ index_title_suffix)
                 (body @ [CHR 0x0A] @ str_join [CHR 0x0A]
                    ([''<h2>Posts</h2>'', ''<ul>'']
                     @ map (\<lambda>e. ''<li><a href="'' @ fst e @ ''">'' @ escape (snd e) @ ''</a></li>'') es4
                     @ [''</ul>'']))
                 ''index.html'')\<close>
    by blast
  from b hb have body: "body = ''<h1>Welcome</h1>''" by simp
  from e h2 have es4: "es4 = es" by simp
  have c5: "read_text wb [''out'', ''site'', ''index.html''] = Inr pg"
    using r unfolding body es4 e2 e3 e4 pg_def .
  note c6 = T[THEN conjunct2, THEN conjunct2, THEN conjunct1, THEN mp, OF h3]
  from c1a c1b c1c h2 e1 c3 c4 f4 c5 h3 c6
  show ?thesis unfolding w'_def es_def src_def out_def built_def wb_def pg_def
    by (intro conjI) assumption+
qed

text \<open>
  C7. A discovered Markdown file whose name starts with \<open>__\<close> gives no rendered page
  (\<open>md_to_html_file\<close> returns \<open>None\<close> and leaves the file system and the log as they are) and
  no entry of the index: the entries are the ones of the file system without that file.
\<close>

theorem reserved_files_skipped:
  "(p \<in> set (collect_md_files w root) \<and> startswith (path_name p) ''__'' \<longrightarrow>
      md_to_html_file p rel_root out_root cfg dry built w = (Inr None, w))
 \<and> (p2 \<in> set (rglob w2 root2 ''.md'') \<and> startswith (path_name p2) ''__'' \<longrightarrow>
      index_entries (w2\<lparr>entries := filter (\<lambda>e. fst e \<noteq> p2) (entries w2)\<rparr>) root2
        = index_entries w2 root2)"
proof (intro conjI impI)
  assume a: "p \<in> set (collect_md_files w root) \<and> startswith (path_name p) ''__''"
  then have "endswith (path_name p) ''.md''" by (simp add: collect_md_files_def rglob_member)
  with a show "md_to_html_file p rel_root out_root cfg dry built w = (Inr None, w)"
    by (simp add: reserved_not_rendered)
next
  assume "p2 \<in> set (rglob w2 root2 ''.md'') \<and> startswith (path_name p2) ''__''"
  then show "index_entries (w2\<lparr>entries := filter (\<lambda>e. fst e \<noteq> p2) (entries w2)\<rparr>) root2
        = index_entries w2 root2"
    by (simp add: reserved_not_listed)
qed

theorem reserved_files_skipped_witness:
  "[''src'', ''site'', ''__index__.md''] \<in> set (collect_md_files sample_world [''src'', ''site''])
 \<and> startswith (path_name [''src'', ''site'', ''__index__.md'']) ''__''
 \<and> md_to_html_file [''src'', ''site'', ''__index__.md''] [''src'', ''site''] [''out'', ''site'']
        sample_config False ''2026-01-01 00:00:00'' sample_world
     = (Inr None, sample_world)
 \<and> index_entries
       (sample_world\<lparr>entries := filter (\<lambda>e. fst e \<noteq> [''src'', ''site'', ''__index__.md''])
                                       (entries sample_world)\<rparr>) [''src'', ''site'']
     = index_entries sample_world [''src'', ''site'']
 \<and> index_entries sample_world [''src'', ''site'']
     = Inr [(''b-post.html'', ''Bee''), (''sub/a.html'', ''a'')]"
proof -
  note T = reserved_files_skipped[where p = "[''src'', ''site'', ''__index__.md'']"
      and w = sample_world and root = "[''src'', ''site'']" and rel_root = "[''src'', ''site'']"
      and out_root = "[''out'', ''site'']" and cfg = sample_config and dry = False
      and built = "''2026-01-01 00:00:00''"
      and ?p2.0 = "[''src'', ''site'', ''__index__.md'']" and ?w2.0 = sample_world
      and ?root2.0 = "[''src'', ''site'']"]
  have h1: "[''src'', ''site'', ''__index__.md''] \<in> set (collect_md_files sample_world [''src'', ''site''])
      \<and> startswith (path_name [''src'', ''site'', ''__index__.md'']) ''__''"
    by code_simp
  have h2: "[''src'', ''site'', ''__index__.md''] \<in> set (rglob sample_world [''src'', ''site''] ''.md'')
      \<and> startswith (path_name [''src'', ''site'', ''__index__.md'']) ''__''"
    by code_simp
  have e: "index_entries sample_world [''src'', ''site'']
     = Inr [(''b-post.html'', ''Bee''), (''sub/a.html'', ''a'')]"
    by code_simp
  from T[THEN conjunct1, THEN mp, OF h1] T[THEN conjunct2, THEN mp, OF h2] h1 e
  show ?thesis by blast
qed

text \<open>Where a write of the real run fails, the real run stops and the dry run goes on: here a
  file stands where the directory \<open>out/site/sub\<close> is to be made.\<close>

lemma failed_write_stops_real_run:
  "fst (run_build sample_config ''site'' False False (\<lambda>p. ''2026-01-01 00:00:00'')
         (sample_world\<lparr>entries := entries sample_world @ [([''out'', ''site'', ''sub''], File ''z'')]\<rparr>))
     = Inl FileExistsError
 \<and> fst (run_build sample_config ''site'' False True (\<lambda>p. ''2026-01-01 00:00:00'')
         (sample_world\<lparr>entries := entries sample_world @ [([''out'', ''site'', ''sub''], File ''z'')]\<rparr>))
     = Inr ()
 \<and> log (snd (run_build sample_config ''site'' False False (\<lambda>p. ''2026-01-01 00:00:00'')
         (sample_world\<lparr>entries := entries sample_world @ [([''out'', ''site'', ''sub''], File ''z'')]\<rparr>)))
     = [(INFO, ''found 3 markdown files''),
        (DEBUG, ''convert /src/site/b-post.md -> /out/site/b-post.html''),
        (INFO, ''write /out/site/b-post.html''),
        (DEBUG, ''convert /src/site/sub/a.md -> /out/site/sub/a.html''),
        (INFO, ''write /out/site/sub/a.html'')]
 \<and> log (snd (run_build sample_config ''site'' False True (\<lambda>p. ''2026-01-01 00:00:00'')
         (sample_world\<lparr>entries := entries sample_world @ [([''out'', ''site'', ''sub''], File ''z'')]\<rparr>)))
     = [(INFO, ''found 3 markdown files''),
        (DEBUG, ''convert /src/site/b-post.md -> /out/site/b-post.html''),
        (INFO, ''write /out/site/b-post.html''),
        (DEBUG, ''convert /src/site/sub/a.md -> /out/site/sub/a.html''),
        (INFO, ''write /out/site/sub/a.html''),
        (INFO, ''write /out/site/index.html''),
        (INFO, ''build complete for site'')]"
  by code_simp

text \<open>
  C8. In a dry run build and clean change nothing in the file system, and they take the
  decisions of a real run. In the order of the conjuncts: \<open>write_text\<close> only logs, and the
  entries of the file system are unchanged by \<open>md_to_html_file\<close>, \<open>build_index\<close>,
  \<open>clean_domain\<close>, \<open>run_build\<close> and \<open>run_clean\<close>. What \<open>md_to_html_file\<close> decides (the
  destination and the page, \<open>convert_plan\<close>) does not depend on the flag, which only
  \<open>write_text\<close> reads. From the same file system the dry operation logs the records of the
  real one: all of them for one write, one conversion and the index; for \<open>clean_domain\<close>,
  \<open>run_clean\<close> and \<open>run_build\<close>, whose real run stops at a removal or a write that fails, the
  log of the real run is an initial part of the log of the dry run, wherever source and
  destination lie. Where the real run does not fail, the dry run returns its result and
  logs the same records.
\<close>

theorem dry_run_mutates_nothing:
  "write_text p t True w = (Inr (), w\<lparr>log := log w @ [(INFO, ''write '' @ str_abs p)]\<rparr>)
 \<and> entries (snd (md_to_html_file md rel_root out_root cfg True built w)) = entries w
 \<and> entries (snd (build_index src dst cfg True built w)) = entries w
 \<and> fst (clean_domain root True w) = Inr ()
 \<and> entries (snd (clean_domain root True w)) = entries w
 \<and> entries (snd (run_build cfg domain clean_first True now w)) = entries w
 \<and> entries (snd (run_clean cfg domain True w)) = entries w
 \<and> md_to_html_file md rel_root out_root cfg dry built w
     = carry_out (fst (convert_plan md rel_root out_root cfg built w)) dry
         (w\<lparr>log := log w @ snd (convert_plan md rel_root out_root cfg built w)\<rparr>)
 \<and> log (snd (write_text p t True w)) = log (snd (write_text p t False w))
 \<and> log (snd (md_to_html_file md rel_root out_root cfg True built w))
     = log (snd (md_to_html_file md rel_root out_root cfg False built w))
 \<and> log (snd (build_index src dst cfg True built w))
     = log (snd (build_index src dst cfg False built w))
 \<and> prefix (log (snd (clean_domain root False w))) (log (snd (clean_domain root True w)))
 \<and> prefix (log (snd (run_clean cfg domain False w))) (log (snd (run_clean cfg domain True w)))
 \<and> prefix (log (snd (run_build cfg domain clean_first False now w)))
           (log (snd (run_build cfg domain clean_first True now w)))
 \<and> (fst (md_to_html_file md rel_root out_root cfg False built w) = Inr r \<longrightarrow>
      fst (md_to_html_file md rel_root out_root cfg True built w) = Inr r)
 \<and> (fst (clean_domain root False w) = Inr () \<longrightarrow>
      log (snd (clean_domain root True w)) = log (snd (clean_domain root False w)))
 \<and> (fst (run_clean cfg domain False w) = Inr () \<longrightarrow>
      fst (run_clean cfg domain True w) = Inr ()
      \<and> log (snd (run_clean cfg domain True w)) = log (snd (run_clean cfg domain False w)))
 \<and> (fst (run_build cfg domain clean_first False now w) = Inr () \<longrightarrow>
      fst (run_build cfg domain clean_first True now w) = Inr ()
      \<and> log (snd (run_build cfg domain clean_first True now w))
          = log (snd (run_build cfg domain clean_first False now w)))"
proof (intro conjI impI)
  show "write_text p t True w = (Inr (), w\<lparr>log := log w @ [(INFO, ''write '' @ str_abs p)]\<rparr>)"
    by (simp add: write_text_dry logging_def)
  show "entries (snd (md_to_html_file md rel_root out_root cfg True built w)) = entries w"
    by (rule md_to_html_file_dry_entries)
  show "entries (snd (build_index src dst cfg True built w)) = entries w"
    by (rule build_index_dry_entries)
  show "fst (clean_domain root True w) = Inr ()" by (simp add: clean_domain_dry)
  show "entries (snd (clean_domain root True w)) = entries w" by (simp add: clean_domain_dry)
  show "entries (snd (run_build cfg domain clean_first True now w)) = entries w"
    by (rule run_build_dry_entries)
  show "entries (snd (run_clean cfg domain True w)) = entries w"
    by (rule run_clean_dry_entries)
  show "md_to_html_file md rel_root out_root cfg dry built w
     = carry_out (fst (convert_plan md rel_root out_root cfg built w)) dry
         (w\<lparr>log := log w @ snd (convert_plan md rel_root out_root cfg built w)\<rparr>)"
    by (rule md_to_html_file_plan)
  show "log (snd (write_text p t True w)) = log (snd (write_text p t False w))"
    by (simp add: write_text_log)
  show "log (snd (md_to_html_file md rel_root out_root cfg True built w))
     = log (snd (md_to_html_file md rel_root out_root cfg False built w))"
    by (rule md_to_html_file_log)
  show "log (snd (build_index src dst cfg True built w))
     = log (snd (build_index src dst cfg False built w))"
    by (rule build_index_log)
  show "prefix (log (snd (clean_domain root False w))) (log (snd (clean_domain root True w)))"
    by (rule clean_domain_log_prefix)
  show "prefix (log (snd (run_clean cfg domain False w))) (log (snd (run_clean cfg domain True w)))"
    using run_clean_sim by blast
  show "prefix (log (snd (run_build cfg domain clean_first False now w)))
           (log (snd (run_build cfg domain clean_first True now w)))"
    using run_build_sim by blast
next
  assume "fst (md_to_html_file md rel_root out_root cfg False built w) = Inr r"
  then show "fst (md_to_html_file md rel_root out_root cfg True built w) = Inr r"
    by (rule md_to_html_file_result)
next
  assume "fst (clean_domain root False w) = Inr ()"
  then show "log (snd (clean_domain root True w)) = log (snd (clean_domain root False w))"
    by (rule clean_domain_log)
next
  assume a: "fst (run_clean cfg domain False w) = Inr ()"
  then show "fst (run_clean cfg domain True w) = Inr ()" using run_clean_sim by blast
  from a show "log (snd (run_clean cfg domain True w)) = log (snd (run_clean cfg domain False w))"
    using run_clean_sim by blast
next
  assume a: "fst (run_build cfg domain clean_first False now w) = Inr ()"
  then show "fst (run_build cfg domain clean_first True now w) = Inr ()" using run_build_sim by blast
  from a show "log (snd (run_build cfg domain clean_first True now w))
          = log (snd (run_build cfg domain clean_first False now w))"
    using run_build_sim by blast
qed

theorem dry_run_mutates_nothing_witness:
  "entries (snd (run_build sample_config ''site'' True True (\<lambda>p. ''2026-01-01 00:00:00'') sample_world))
     = entries sample_world
 \<and> fst (md_to_html_file [''src'', ''site'', ''b-post.md''] [''src'', ''site''] [''out'', ''site'']
          sample_config False ''2026-01-01 00:00:00'' sample_world)
     = Inr (Some [''out'', ''site'', ''b-post.html''])
 \<and> fst (md_to_html_file [''src'', ''site'', ''b-post.md''] [''src'', ''site''] [''out'', ''site'']
          sample_config True ''2026-01-01 00:00:00'' sample_world)
     = Inr (Some [''out'', ''site'', ''b-post.html''])
 \<and> fst (clean_domain [''out'', ''site''] False sample_world) = Inr ()
 \<and> log (snd (clean_domain [''out'', ''site''] True sample_world))
     = [(INFO, ''remove /out/site/old.html'')]
 \<and> fst (run_clean sample_config ''site'' False sample_world) = Inr ()
 \<and> fst (run_clean sample_config ''site'' True sample_world) = Inr ()
 \<and> log (snd (run_clean sample_config ''site'' True sample_world))
     = [(INFO, ''remove /out/site/old.html''), (INFO, ''clean complete for site'')]
 \<and> fst (run_build sample_config ''site'' True False (\<lambda>p. ''2026-01-01 00:00:00'') sample_world)
     = Inr ()
 \<and> map fst (entries (snd (run_build sample_config ''site'' True False
                               (\<lambda>p. ''2026-01-01 00:00:00'') sample_world)))
     = [[''src''], [''src'', ''site''], [''src'', ''site'', ''b-post.md''],
        [''src'', ''site'', ''__index__.md''], [''src'', ''site'', ''sub''],
        [''src'', ''site'', ''sub'', ''a.md''], [''out''], [''out'', ''site''],
        [''out'', ''site'', ''style.css''], [''out'', ''site'', ''b-post.html''],
        [''out'', ''site'', ''sub''], [''out'', ''site'', ''sub'', ''a.html''],
        [''out'', ''site'', ''index.html'']]
 \<and> fst (run_build sample_config ''site'' True True (\<lambda>p. ''2026-01-01 00:00:00'') sample_world)
     = Inr ()
 \<and> log (snd (run_build sample_config ''site'' True True (\<lambda>p. ''2026-01-01 00:00:00'') sample_world))
     = [(INFO, ''remove /out/site/old.html''),
        (INFO, ''found 3 markdown files''),
        (DEBUG, ''convert /src/site/b-post.md -> /out/site/b-post.html''),
        (INFO, ''write /out/site/b-post.html''),
        (DEBUG, ''convert /src/site/sub/a.md -> /out/site/sub/a.html''),
        (INFO, ''write /out/site/sub/a.html''),
        (INFO, ''write /out/site/index.html''),
        (INFO, ''build complete for site'')]
 \<and> fst (run_build sample_config ''/src/site'' False False (\<lambda>p. ''2026-01-01 00:00:00'') sample_world)
     = Inr ()
 \<and> fst (run_build sample_config ''/src/site'' False True (\<lambda>p. ''2026-01-01 00:00:00'') sample_world)
     = Inr ()
 \<and> log (snd (run_build sample_config ''/src/site'' False True (\<lambda>p. ''2026-01-01 00:00:00'') sample_world))
     = [(INFO, ''found 3 markdown files''),
        (DEBUG, ''convert /src/site/b-post.md -> /src/site/b-post.html''),
        (INFO, ''write /src/site/b-post.html''),
        (DEBUG, ''convert /src/site/sub/a.md -> /src/site/sub/a.html''),
        (INFO, ''write /src/site/sub/a.html''),
        (INFO, ''write /src/site/index.html''),
        (INFO, ''build complete for /src/site'')]"
proof -
  define now where "now = (\<lambda>p :: path. ''2026-01-01 00:00:00'')"
  note T = dry_run_mutates_nothing[where w = sample_world and cfg = sample_config
      and domain = "''site''" and clean_first = True and now = now
      and md = "[''src'', ''site'', ''b-post.md'']" and rel_root = "[''src'', ''site'']"
      and out_root = "[''out'', ''site'']" and built = "''2026-01-01 00:00:00''"
      and r = "Some [''out'', ''site'', ''b-post.html'']" and root = "[''out'', ''site'']"
      and p = "[''out'', ''site'', ''index.html'']" and t = "''x''"
      and src = "[''src'', ''site'']" and dst = "[''out'', ''site'']" and dry = True]
  have h1: "fst (md_to_html_file [''src'', ''site'', ''b-post.md''] [''src'', ''site''] [''out'', ''site'']
          sample_config False ''2026-01-01 00:00:00'' sample_world)
     = Inr (Some [''out'', ''site'', ''b-post.html''])"
    by code_simp
  have h2: "fst (clean_domain [''out'', ''site''] False sample_world) = Inr ()" by code_simp
  have h3: "fst (run_clean sample_config ''site'' False sample_world) = Inr ()" by code_simp
  have h4: "fst (run_build sample_config ''site'' True False now sample_world) = Inr ()"
    unfolding now_def by code_simp
  have e2: "log (snd (clean_domain [''out'', ''site''] False sample_world))
     = [(INFO, ''remove /out/site/old.html'')]"
    by code_simp
  have e3: "log (snd (run_clean sample_config ''site'' False sample_world))
     = [(INFO, ''remove /out/site/old.html''), (INFO, ''clean complete for site'')]"
    by code_simp
  have e4: "log (snd (run_build sample_config ''site'' True False now sample_world))
     = [(INFO, ''remove /out/site/old.html''),
        (INFO, ''found 3 markdown files''),
        (DEBUG, ''convert /src/site/b-post.md -> /out/site/b-post.html''),
        (INFO, ''write /out/site/b-post.html''),
        (DEBUG, ''convert /src/site/sub/a.md -> /out/site/sub/a.html''),
        (INFO, ''write /out/site/sub/a.html''),
        (INFO, ''write /out/site/index.html''),
        (INFO, ''build complete for site'')]"
    unfolding now_def by code_simp
  have e5: "map fst (entries (snd (run_build sample_config ''site'' True False now sample_world)))
     = [[''src''], [''src'', ''site''], [''src'', ''site'', ''b-post.md''],
        [''src'', ''site'', ''__index__.md''], [''src'', ''site'', ''sub''],
        [''src'', ''site'', ''sub'', ''a.md''], [''out''], [''out'', ''site''],
        [''out'', ''site'', ''style.css''], [''out'', ''site'', ''b-post.html''],
        [''out'', ''site'', ''sub''], [''out'', ''site'', ''sub'', ''a.html''],
        [''out'', ''site'', ''index.html'']]"
    unfolding now_def by code_simp
  have c1: "entries (snd (run_build sample_config ''site'' True True now sample_world))
     = entries sample_world"
    using T by blast
  have c2: "fst (md_to_html_file [''src'', ''site'', ''b-post.md''] [''src'', ''site''] [''out'', ''site'']
          sample_config True ''2026-01-01 00:00:00'' sample_world)
     = Inr (Some [''out'', ''site'', ''b-post.html''])"
    using T h1 by blast
  have "log (snd (clean_domain [''out'', ''site''] True sample_world))
     = log (snd (clean_domain [''out'', ''site''] False sample_world))"
    using T h2 by blast
  then have c3: "log (snd (clean_domain [''out'', ''site''] True sample_world))
     = [(INFO, ''remove /out/site/old.html'')]"
    using e2 by (rule trans)
  have c4: "fst (run_clean sample_config ''site'' True sample_world) = Inr ()"
    using T h3 by blast
  have "log (snd (run_clean sample_config ''site'' True sample_world))
     = log (snd (run_clean sample_config ''site'' False sample_world))"
    using T h3 by blast
  then have c5: "log (snd (run_clean sample_config ''site'' True sample_world))
     = [(INFO, ''remove /out/site/old.html''), (INFO, ''clean complete for site'')]"
    using e3 by (rule trans)
  have c6: "fst (run_build sample_config ''site'' True True now sample_world) = Inr ()"
    using T h4 by blast
  have "log (snd (run_build sample_config ''site'' True True now sample_world))
     = log (snd (run_build sample_config ''site'' True False now sample_world))"
    using T h4 by blast
  then have c7: "log (snd (run_build sample_config ''site'' True True now sample_world))
     = [(INFO, ''remove /out/site/old.html''),
        (INFO, ''found 3 markdown files''),
        (DEBUG, ''convert /src/site/b-post.md -> /out/site/b-post.html''),
        (INFO, ''write /out/site/b-post.html''),
        (DEBUG, ''convert /src/site/sub/a.md -> /out/site/sub/a.html''),
        (INFO, ''write /out/site/sub/a.html''),
        (INFO, ''write /out/site/index.html''),
        (INFO, ''build complete for site'')]"
    using e4 by (rule trans)
  note T2 = dry_run_mutates_nothing[where w = sample_world and cfg = sample_config
      and domain = "''/src/site''" and clean_first = False and now = now]
  have h8: "fst (run_build sample_config ''/src/site'' False False now sample_world) = Inr ()"
    unfolding now_def by code_simp
  have e8: "log (snd (run_build sample_config ''/src/site'' False False now sample_world))
     = [(INFO, ''found 3 markdown files''),
        (DEBUG, ''convert /src/site/b-post.md -> /src/site/b-post.html''),
        (INFO, ''write /src/site/b-post.html''),
        (DEBUG, ''convert /src/site/sub/a.md -> /src/site/sub/a.html''),
        (INFO, ''write /src/site/sub/a.html''),
        (INFO, ''write /src/site/index.html''),
        (INFO, ''build complete for /src/site'')]"
    unfolding now_def by code_simp
  have c8: "fst (run_build sample_config ''/src/site'' False True now sample_world) = Inr ()"
    using T2 h8 by blast
  have "log (snd (run_build sample_config ''/src/site'' False True now sample_world))
     = log (snd (run_build sample_config ''/src/site'' False False now sample_world))"
    using T2 h8 by blast
  then have c9: "log (snd (run_build sample_config ''/src/site'' False True now sample_world))
     = [(INFO, ''found 3 markdown files''),
        (DEBUG, ''convert /src/site/b-post.md -> /src/site/b-post.html''),
        (INFO, ''write /src/site/b-post.html''),
        (DEBUG, ''convert /src/site/sub/a.md -> /src/site/sub/a.html''),
        (INFO, ''write /src/site/sub/a.html''),
        (INFO, ''write /src/site/index.html''),
        (INFO, ''build complete for /src/site'')]"
    using e8 by (rule trans)
  from c1 h1 c2 h2 c3 h3 c4 c5 h4 e5 c6 c7 h8 c8 c9 show ?thesis
    unfolding now_def by (intro conjI) assumption+
qed

text \<open>
  C9. \<open>clean_domain\<close> deletes the \<open>.html\<close> files under the root and tolerates a file that
  has vanished. The scan \<open>rglob("*.html")\<close> also yields a directory with such a name, and
  nothing in the program tells files from directories: on a directory \<open>unlink\<close> raises, the
  run stops there and the files that come after it stay.
\<close>

theorem clean_domain_stops_at_directory:
  "clean_domain [''out''] False
     \<lparr>entries = [([''out''], Dir), ([''out'', ''dir.html''], Dir), ([''out'', ''z.html''], File ''x'')],
      log = []\<rparr>
   = (Inl IsADirectoryError,
      \<lparr>entries = [([''out''], Dir), ([''out'', ''dir.html''], Dir), ([''out'', ''z.html''], File ''x'')],
       log = [(INFO, ''remove /out/dir.html'')]\<rparr>)"
  by code_simp

text \<open>
  C9, where no directory under the root has a name that ends in \<open>.html\<close>. \<open>clean_domain\<close> on
  a root that does not exist changes nothing; otherwise it removes the files below the root
  whose name ends in \<open>.html\<close> and keeps every other entry; a file that is gone when its turn
  comes is passed over. The second and the fourth conjunct are about a scan that yields
  files only; the third and the fourth are the loop on a list of paths that the file system
  need no longer hold; the last is the loop at a directory.
\<close>

theorem clean_domain_removes_html_only:
  "(\<not> path_exists w1 root1 \<longrightarrow>
      clean_domain root1 dry1 w1
        = (Inr (), w1\<lparr>log := log w1 @ [(INFO, ''nothing to clean at '' @ str_abs root1)]\<rparr>))
 \<and> (path_exists w2 root2 \<and> (\<forall>p \<in> set (rglob w2 root2 ''.html''). node_at w2 p \<noteq> Some Dir) \<longrightarrow>
      clean_domain root2 False w2
        = (Inr (), w2\<lparr>entries := filter (\<lambda>e. \<not> (is_under root2 (fst e)
                                                   \<and> endswith (path_name (fst e)) ''.html''))
                                         (entries w2),
                        log := log w2 @ remove_records (rglob w2 root2 ''.html'')\<rparr>))
 \<and> (node_at w3 p3 = None \<longrightarrow>
      clean_loop (p3 # ps3) False w3
        = clean_loop ps3 False (logging INFO (''remove '' @ str_abs p3) w3))
 \<and> ((\<forall>p \<in> set ps4. node_at w4 p \<noteq> Some Dir) \<longrightarrow>
      fst (clean_loop ps4 False w4) = Inr ()
      \<and> entries (snd (clean_loop ps4 False w4)) = filter (\<lambda>e. fst e \<notin> set ps4) (entries w4))
 \<and> (node_at w5 p5 = Some Dir \<longrightarrow>
      clean_loop (p5 # ps5) False w5
        = (Inl IsADirectoryError, logging INFO (''remove '' @ str_abs p5) w5))"
proof (intro conjI impI)
  assume "\<not> path_exists w1 root1"
  then show "clean_domain root1 dry1 w1
        = (Inr (), w1\<lparr>log := log w1 @ [(INFO, ''nothing to clean at '' @ str_abs root1)]\<rparr>)"
    by (simp add: clean_domain_def logging_def)
next
  assume a: "path_exists w2 root2 \<and> (\<forall>p \<in> set (rglob w2 root2 ''.html''). node_at w2 p \<noteq> Some Dir)"
  have "filter (\<lambda>e. fst e \<notin> set (rglob w2 root2 ''.html'')) (entries w2)
      = filter (\<lambda>e. \<not> (is_under root2 (fst e) \<and> endswith (path_name (fst e)) ''.html'')) (entries w2)"
    by (rule filter_cong) (auto simp: rglob_member)
  then show "clean_domain root2 False w2
        = (Inr (), w2\<lparr>entries := filter (\<lambda>e. \<not> (is_under root2 (fst e)
                                                   \<and> endswith (path_name (fst e)) ''.html''))
                                         (entries w2),
                        log := log w2 @ remove_records (rglob w2 root2 ''.html'')\<rparr>)"
    using a clean_loop_real[of "rglob w2 root2 ''.html''" w2] by (simp add: clean_domain_def)
next
  assume "node_at w3 p3 = None"
  then show "clean_loop (p3 # ps3) False w3
        = clean_loop ps3 False (logging INFO (''remove '' @ str_abs p3) w3)"
    by (simp add: unlink_def Let_def)
next
  assume a: "\<forall>p \<in> set ps4. node_at w4 p \<noteq> Some Dir"
  show "fst (clean_loop ps4 False w4) = Inr ()" by (simp add: clean_loop_real[OF a])
  show "entries (snd (clean_loop ps4 False w4)) = filter (\<lambda>e. fst e \<notin> set ps4) (entries w4)"
    by (simp add: clean_loop_real[OF a])
next
  assume "node_at w5 p5 = Some Dir"
  then show "clean_loop (p5 # ps5) False w5
        = (Inl IsADirectoryError, logging INFO (''remove '' @ str_abs p5) w5)"
    by (simp add: unlink_def Let_def)
qed

theorem clean_domain_removes_html_only_witness:
  "clean_domain [''nowhere''] False sample_world
     = (Inr (), sample_world\<lparr>log := [(INFO, ''nothing to clean at /nowhere'')]\<rparr>)
 \<and> clean_domain [''out'', ''site''] False sample_world
     = (Inr (), sample_world\<lparr>entries :=
          [([''src''], Dir), ([''src'', ''site''], Dir),
           ([''src'', ''site'', ''b-post.md''], File ''# Bee\<newline>text''),
           ([''src'', ''site'', ''__index__.md''], File ''# Welcome''),
           ([''src'', ''site'', ''sub''], Dir),
           ([''src'', ''site'', ''sub'', ''a.md''], File ''no heading''),
           ([''out''], Dir), ([''out'', ''site''], Dir),
           ([''out'', ''site'', ''style.css''], File ''y'')],
          log := [(INFO, ''remove /out/site/old.html'')]\<rparr>)
 \<and> clean_loop [[''out'', ''site'', ''gone.html''], [''out'', ''site'', ''old.html'']] False sample_world
     = clean_loop [[''out'', ''site'', ''old.html'']] False
         (logging INFO ''remove /out/site/gone.html'' sample_world)
 \<and> fst (clean_loop [[''out'', ''site'', ''gone.html''], [''out'', ''site'', ''old.html'']] False sample_world)
     = Inr ()
 \<and> map fst (entries (snd (clean_loop [[''out'', ''site'', ''gone.html''], [''out'', ''site'', ''old.html'']]
                                 False sample_world)))
     = [[''src''], [''src'', ''site''], [''src'', ''site'', ''b-post.md''],
        [''src'', ''site'', ''__index__.md''], [''src'', ''site'', ''sub''],
        [''src'', ''site'', ''sub'', ''a.md''], [''out''], [''out'', ''site''],
        [''out'', ''site'', ''style.css'']]
 \<and> clean_loop [[''out'', ''site''], [''out'', ''site'', ''old.html'']] False sample_world
     = (Inl IsADirectoryError, logging INFO ''remove /out/site'' sample_world)"
proof -
  define gone where "gone = [''out'', ''site'', ''gone.html'']"
  define old where "old = [''out'', ''site'', ''old.html'']"
  note T = clean_domain_removes_html_only[where ?w1.0 = sample_world and ?root1.0 = "[''nowhere'']"
      and ?dry1.0 = False and ?w2.0 = sample_world and ?root2.0 = "[''out'', ''site'']"
      and ?w3.0 = sample_world and ?p3.0 = gone and ?ps3.0 = "[old]"
      and ?w4.0 = sample_world and ?ps4.0 = "[gone, old]"
      and ?w5.0 = sample_world and ?p5.0 = "[''out'', ''site'']" and ?ps5.0 = "[old]"]
  have h1: "\<not> path_exists sample_world [''nowhere'']" by code_simp
  have h2: "path_exists sample_world [''out'', ''site'']
      \<and> (\<forall>p \<in> set (rglob sample_world [''out'', ''site''] ''.html''). node_at sample_world p \<noteq> Some Dir)"
    by code_simp
  have h3: "node_at sample_world gone = None" unfolding gone_def by code_simp
  have h4: "\<forall>p \<in> set [gone, old]. node_at sample_world p \<noteq> Some Dir"
    unfolding gone_def old_def by code_simp
  have e1: "sample_world\<lparr>log := log sample_world @ [(INFO, ''nothing to clean at '' @ str_abs [''nowhere''])]\<rparr>
      = sample_world\<lparr>log := [(INFO, ''nothing to clean at /nowhere'')]\<rparr>"
    by code_simp
  have e2: "sample_world\<lparr>entries := filter (\<lambda>e. \<not> (is_under [''out'', ''site''] (fst e)
                                                   \<and> endswith (path_name (fst e)) ''.html''))
                                         (entries sample_world),
                        log := log sample_world @ remove_records (rglob sample_world [''out'', ''site''] ''.html'')\<rparr>
      = sample_world\<lparr>entries :=
          [([''src''], Dir), ([''src'', ''site''], Dir),
           ([''src'', ''site'', ''b-post.md''], File ''# Bee\<newline>text''),
           ([''src'', ''site'', ''__index__.md''], File ''# Welcome''),
           ([''src'', ''site'', ''sub''], Dir),
           ([''src'', ''site'', ''sub'', ''a.md''], File ''no heading''),
           ([''out''], Dir), ([''out'', ''site''], Dir),
           ([''out'', ''site'', ''style.css''], File ''y'')],
          log := [(INFO, ''remove /out/site/old.html'')]\<rparr>"
    by code_simp
  have e3: "''remove '' @ str_abs gone = ''remove /out/site/gone.html''"
    unfolding gone_def by code_simp
  have e4: "map fst (filter (\<lambda>e. fst e \<notin> set [gone, old]) (entries sample_world))
     = [[''src''], [''src'', ''site''], [''src'', ''site'', ''b-post.md''],
        [''src'', ''site'', ''__index__.md''], [''src'', ''site'', ''sub''],
        [''src'', ''site'', ''sub'', ''a.md''], [''out''], [''out'', ''site''],
        [''out'', ''site'', ''style.css'']]"
    unfolding gone_def old_def by code_simp
  have c1: "clean_domain [''nowhere''] False sample_world
     = (Inr (), sample_world\<lparr>log := [(INFO, ''nothing to clean at /nowhere'')]\<rparr>)"
    using T[THEN conjunct1, THEN mp, OF h1] by (simp only: e1)
  have c2: "clean_domain [''out'', ''site''] False sample_world
     = (Inr (), sample_world\<lparr>entries :=
          [([''src''], Dir), ([''src'', ''site''], Dir),
           ([''src'', ''site'', ''b-post.md''], File ''# Bee\<newline>text''),
           ([''src'', ''site'', ''__index__.md''], File ''# Welcome''),
           ([''src'', ''site'', ''sub''], Dir),
           ([''src'', ''site'', ''sub'', ''a.md''], File ''no heading''),
           ([''out''], Dir), ([''out'', ''site''], Dir),
           ([''out'', ''site'', ''style.css''], File ''y'')],
          log := [(INFO, ''remove /out/site/old.html'')]\<rparr>)"
    using T[THEN conjunct2, THEN conjunct1, THEN mp, OF h2] by (simp only: e2)
  have c3: "clean_loop [gone, old] False sample_world
     = clean_loop [old] False (logging INFO ''remove /out/site/gone.html'' sample_world)"
    using T[THEN conjunct2, THEN conjunct2, THEN conjunct1, THEN mp, OF h3] by (simp only: e3)
  have c4: "fst (clean_loop [gone, old] False sample_world) = Inr ()
      \<and> entries (snd (clean_loop [gone, old] False sample_world))
          = filter (\<lambda>e. fst e \<notin> set [gone, old]) (entries sample_world)"
    using T[THEN conjunct2, THEN conjunct2, THEN conjunct2, THEN conjunct1, THEN mp, OF h4] .
  have h5: "node_at sample_world [''out'', ''site''] = Some Dir" by code_simp
  have e5: "''remove '' @ str_abs [''out'', ''site''] = ''remove /out/site''" by code_simp
  have c6: "clean_loop [[''out'', ''site''], old] False sample_world
     = (Inl IsADirectoryError, logging INFO ''remove /out/site'' sample_world)"
    using T[THEN conjunct2, THEN conjunct2, THEN conjunct2, THEN conjunct2, THEN mp, OF h5]
    by (simp only: e5)
  from c4 have c5: "map fst (entries (snd (clean_loop [gone, old] False sample_world)))
     = [[''src''], [''src'', ''site''], [''src'', ''site'', ''b-post.md''],
        [''src'', ''site'', ''__index__.md''], [''src'', ''site'', ''sub''],
        [''src'', ''site'', ''sub'', ''a.md''], [''out''], [''out'', ''site''],
        [''out'', ''site'', ''style.css'']]"
    by (simp only: e4)
  from c1 c2 c3 c4 c5 c6 show ?thesis unfolding gone_def old_def by blast
qed

end
